theory Spec2Isabelle
  imports Main "HOL-Library.Option_ord"
begin

section \<open>Quadratic knapsack: the DP engines and the profit validator\<close>

text \<open>
  The development embeds \<^verbatim>\<open>src/algorithms.py\<close> (classical_dp_qkp, dp_heuristic_algo2,
  dp_heuristic_algo3) and \<^verbatim>\<open>src/utils.py\<close> (compute_profit_and_items).

  Conventions of the embedding.
  \<^item> Weights and the capacity are natural numbers (non-negative Python ints); the entries of
    the profit matrix are Python ints, modelled as \<open>int\<close>.
  \<^item> A double obtained from ints by conversion and addition is itself an integer, and is
    modelled by that integer. Conversion (\<^verbatim>\<open>float(n)\<close>, and the int operand of a float64
    addition) rounds to 53 significant bits, ties to even, and raises OverflowError beyond
    the range of a double; float64 addition rounds in the same way and overflows to an
    infinity.
  \<^item> The exact engine computes with Python ints and converts only the profit it returns.
    The heuristic engines hold their profits in a float64 array: a value is \<open>NegInf\<close>
    (\<^verbatim>\<open>-np.inf\<close>), \<open>Finite v\<close> or \<open>PosInf\<close>.
  \<^item> A Python set of item indices is a \<open>nat set\<close>; \<^verbatim>\<open>len\<close> is \<open>card\<close>. The order in which
    a \<^verbatim>\<open>for\<close> loop enumerates a set is not fixed by the language. Where sums are exact it
    does not matter; the heuristic engines, which add in floating point, take it as a
    parameter \<open>order\<close>: \<open>order k r S\<close> is the sequence in which the loop for item \<open>k\<close> at
    capacity \<open>r\<close> enumerates \<open>S\<close>. The validator takes the enumeration of its candidate
    set as a list.
  \<^item> Reading \<^verbatim>\<open>profits[i][j]\<close> or \<^verbatim>\<open>weights[i]\<close> out of range raises IndexError,
    \<^verbatim>\<open>max\<close> of an empty sequence raises ValueError, and the conversion of a too large int
    raises OverflowError: they are values of type \<open>error\<close>.
\<close>

subsection \<open>Errors and loops that may raise\<close>

datatype error = IndexError | ValueError | OverflowError

definition bindE :: "error + 'a \<Rightarrow> ('a \<Rightarrow> error + 'b) \<Rightarrow> error + 'b" where
  "bindE m f = (case m of Inl e \<Rightarrow> Inl e | Inr x \<Rightarrow> f x)"

text \<open>A \<^verbatim>\<open>for x in xs\<close> loop over a state, stopping at the first exception.\<close>

fun foldE :: "('a \<Rightarrow> 's \<Rightarrow> error + 's) \<Rightarrow> 'a list \<Rightarrow> 's \<Rightarrow> error + 's" where
  "foldE f [] s = Inr s"
| "foldE f (x # xs) s = bindE (f x s) (foldE f xs)"

text \<open>\<^verbatim>\<open>profits[i][j]\<close>\<close>

definition get_profit :: "int list list \<Rightarrow> nat \<Rightarrow> nat \<Rightarrow> error + int" where
  "get_profit profits i j =
     (if i < length profits \<and> j < length (profits ! i) then Inr (profits ! i ! j)
      else Inl IndexError)"

text \<open>\<^verbatim>\<open>weights[i]\<close>\<close>

definition get_weight :: "nat list \<Rightarrow> nat \<Rightarrow> error + nat" where
  "get_weight weights i = (if i < length weights then Inr (weights ! i) else Inl IndexError)"

subsection \<open>Python ints converted to floats\<close>

text \<open>
  \<^verbatim>\<open>n.bit_length()\<close> of an int \<open>n \<ge> 0\<close>: the number of binary digits of \<open>n\<close>.
\<close>

fun bit_length :: "int \<Rightarrow> nat" where
  "bit_length n = (if n \<le> 0 then 0 else Suc (bit_length (n div 2)))"

text \<open>
  The multiple of \<open>2^e\<close> nearest to \<open>n\<close>; of two multiples equally near, the one whose
  quotient by \<open>2^e\<close> is even (IEEE 754 round-half-to-even).
\<close>

definition round_half_even :: "int \<Rightarrow> nat \<Rightarrow> int" where
  "round_half_even n e =
     (let q = n div 2 ^ e; r = n mod 2 ^ e in
      if 2 * r < 2 ^ e \<or> (2 * r = 2 ^ e \<and> even q) then q * 2 ^ e else (q + 1) * 2 ^ e)"

text \<open>
  The integer \<open>n\<close> rounded to the 53 significant binary digits of a double. The result is
  again an integer: a finite double that arises from ints is modelled by the integer it holds.
\<close>

definition to_double :: "int \<Rightarrow> int" where
  "to_double n = round_half_even n (bit_length \<bar>n\<bar> - 53)"

text \<open>
  \<^verbatim>\<open>float(n)\<close>: the nearest double, and OverflowError when that is \<open>2^1024\<close> or more in
  magnitude.
\<close>

definition py_float :: "int \<Rightarrow> error + int" where
  "py_float n =
     (let d = to_double n in if bit_length \<bar>d\<bar> > 1024 then Inl OverflowError else Inr d)"

subsection \<open>float64 values\<close>

datatype float64 = NegInf | Finite int | PosInf

instantiation float64 :: linorder
begin

fun less_eq_float64 :: "float64 \<Rightarrow> float64 \<Rightarrow> bool" where
  "less_eq_float64 NegInf y = True"
| "less_eq_float64 (Finite a) NegInf = False"
| "less_eq_float64 (Finite a) (Finite b) = (a \<le> b)"
| "less_eq_float64 (Finite a) PosInf = True"
| "less_eq_float64 PosInf NegInf = False"
| "less_eq_float64 PosInf (Finite b) = False"
| "less_eq_float64 PosInf PosInf = True"

definition less_float64 :: "float64 \<Rightarrow> float64 \<Rightarrow> bool" where
  "less_float64 x y = (x \<le> y \<and> \<not> y \<le> x)"

instance
proof
  fix x y z :: float64
  show "(x < y) = (x \<le> y \<and> \<not> y \<le> x)" by (simp add: less_float64_def)
  show "x \<le> x" by (cases x) simp_all
  show "x \<le> y \<Longrightarrow> y \<le> z \<Longrightarrow> x \<le> z" by (cases x; cases y; cases z) simp_all
  show "x \<le> y \<Longrightarrow> y \<le> x \<Longrightarrow> x = y" by (cases x; cases y) simp_all
  show "x \<le> y \<or> y \<le> x" by (cases x; cases y) auto
qed

end

text \<open>
  \<open>x + y\<close> for a float64 \<open>x\<close> and a finite double \<open>y\<close>: the exact sum rounded to a double,
  an infinity when the rounded sum is \<open>2^1024\<close> or more in magnitude.
\<close>

fun fadd :: "float64 \<Rightarrow> int \<Rightarrow> float64" where
  "fadd NegInf y = NegInf"
| "fadd (Finite x) y =
     (let d = to_double (x + y) in
      if bit_length \<bar>d\<bar> > 1024 then (if d < 0 then NegInf else PosInf) else Finite d)"
| "fadd PosInf y = PosInf"

text \<open>
  \<^verbatim>\<open>acc + profits[i][j]\<close> for a float64 \<open>acc\<close>: the entry is read, converted to a double
  and added.
\<close>

definition add_profit :: "int list list \<Rightarrow> nat \<Rightarrow> nat \<Rightarrow> float64 \<Rightarrow> error + float64" where
  "add_profit profits i j acc =
     bindE (get_profit profits i j) (\<lambda>v. bindE (py_float v) (\<lambda>d. Inr (fadd acc d)))"

text \<open>
  The profit of the include transition in the heuristic engines:
  \<^verbatim>\<open>current_profit = prev_profit + profits[k][k]\<close>, then
  \<^verbatim>\<open>current_profit += profits[k][j]\<close> for \<open>j\<close> in the set, enumerated as \<open>js\<close>.
\<close>

definition candidate_profit ::
  "int list list \<Rightarrow> nat \<Rightarrow> nat list \<Rightarrow> float64 \<Rightarrow> error + float64" where
  "candidate_profit profits k js prev_profit =
     bindE (add_profit profits k k prev_profit) (foldE (add_profit profits k) js)"

type_synonym enumeration = "nat \<Rightarrow> nat \<Rightarrow> nat set \<Rightarrow> nat list"

subsection \<open>The validator: compute_profit_and_items\<close>

text \<open>
  \<^verbatim>\<open>itertools.combinations(xs, 2)\<close>: the pairs \<open>(xs[a], xs[b])\<close> with \<open>a < b\<close>, in
  lexicographic order of the positions.
\<close>

fun combinations2 :: "'a list \<Rightarrow> ('a \<times> 'a) list" where
  "combinations2 [] = []"
| "combinations2 (x # xs) = map (Pair x) xs @ combinations2 xs"

text \<open>
  The argument \<open>selected_indices\<close> is the sequence in which Python enumerates the
  candidate set (a list without repetitions); \<^verbatim>\<open>set(selected_indices)\<close> is its set of
  elements. The order only matters for \<^verbatim>\<open>combinations\<close>, which decides which of
  \<open>p[i][j]\<close> and \<open>p[j][i]\<close> is read for a pair.
\<close>

definition compute_profit_and_items ::
  "nat list \<Rightarrow> int list list \<Rightarrow> nat \<Rightarrow> nat list \<Rightarrow> error + (int option \<times> nat set)" where
  "compute_profit_and_items weights profits capacity selected_indices =
     bindE (foldE (\<lambda>i acc. bindE (get_weight weights i) (\<lambda>w. Inr (acc + w))) selected_indices 0)
       (\<lambda>total_weight.
          if total_weight > capacity then Inr (None, {})
          else
            bindE (foldE (\<lambda>i acc. bindE (get_profit profits i i) (\<lambda>v. Inr (acc + v)))
                     selected_indices 0)
              (\<lambda>linear.
                 bindE (foldE (\<lambda>(i, j) acc. bindE (get_profit profits i j) (\<lambda>v. Inr (acc + v)))
                          (combinations2 selected_indices) linear)
                   (\<lambda>total_profit. Inr (Some total_profit, set selected_indices))))"

subsection \<open>Tables and result extraction\<close>

text \<open>\<^verbatim>\<open>t[k][r] = v\<close> on a list of rows.\<close>

definition upd2 :: "'a list list \<Rightarrow> nat \<Rightarrow> nat \<Rightarrow> 'a \<Rightarrow> 'a list list" where
  "upd2 t k r v = t[k := (t ! k)[r := v]]"

text \<open>
  \<^verbatim>\<open>for j in S: acc += profits[i][j]\<close>: the sum does not depend on the order in which
  the set is enumerated, and every missing entry raises the same IndexError.
\<close>

definition add_interactions :: "int list list \<Rightarrow> nat \<Rightarrow> nat set \<Rightarrow> int \<Rightarrow> error + int" where
  "add_interactions profits i S acc =
     (if \<forall>j\<in>S. i < length profits \<and> j < length (profits ! i)
      then Inr (acc + (\<Sum>j\<in>S. profits ! i ! j))
      else Inl IndexError)"

text \<open>\<^verbatim>\<open>max(xs)\<close> and \<^verbatim>\<open>np.max(xs)\<close>\<close>

definition py_max :: "'a::linorder list \<Rightarrow> error + 'a" where
  "py_max xs = (if xs = [] then Inl ValueError else Inr (Max (set xs)))"

text \<open>\<^verbatim>\<open>xs.index(y)\<close>: the first position holding \<open>y\<close>.\<close>

definition py_index :: "'a list \<Rightarrow> 'a \<Rightarrow> error + nat" where
  "py_index xs y =
     (if y \<in> set xs then Inr (length (takeWhile (\<lambda>x. x \<noteq> y) xs)) else Inl ValueError)"

text \<open>\<^verbatim>\<open>np.argmax(xs)\<close>: the first position holding the maximum.\<close>

definition np_argmax :: "'a::linorder list \<Rightarrow> error + nat" where
  "np_argmax xs = bindE (py_max xs) (py_index xs)"

subsection \<open>The exact engine: classical_dp_qkp\<close>

type_synonym ctable = "int list list \<times> nat set list list"

text \<open>Case 1 of the loop body: do not include item \<open>k - 1\<close>.\<close>

definition classical_exclude :: "nat \<Rightarrow> nat \<Rightarrow> ctable \<Rightarrow> ctable" where
  "classical_exclude k r = (\<lambda>(dp, tracker).
     (upd2 dp k r (dp ! (k - 1) ! r), upd2 tracker k r (tracker ! (k - 1) ! r)))"

text \<open>Case 2 of the loop body: include item \<open>k - 1\<close> if it fits.\<close>

definition classical_include ::
  "nat list \<Rightarrow> int list list \<Rightarrow> nat \<Rightarrow> nat \<Rightarrow> ctable \<Rightarrow> error + ctable" where
  "classical_include weights profits k r = (\<lambda>(dp, tracker).
     if r \<ge> weights ! (k - 1) then
       (let prev_r = r - weights ! (k - 1) in
        bindE (get_profit profits (k - 1) (k - 1)) (\<lambda>self.
        bindE (add_interactions profits (k - 1) (tracker ! (k - 1) ! prev_r)
                 (dp ! (k - 1) ! prev_r + self)) (\<lambda>profit_with_k.
          if profit_with_k > dp ! k ! r
          then Inr (upd2 dp k r profit_with_k,
                    upd2 tracker k r (insert (k - 1) (tracker ! (k - 1) ! prev_r)))
          else Inr (dp, tracker))))
     else Inr (dp, tracker))"

definition classical_cell ::
  "nat list \<Rightarrow> int list list \<Rightarrow> nat \<Rightarrow> nat \<Rightarrow> ctable \<Rightarrow> error + ctable" where
  "classical_cell weights profits k r s =
     classical_include weights profits k r (classical_exclude k r s)"

definition classical_init :: "nat \<Rightarrow> nat \<Rightarrow> ctable" where
  "classical_init n capacity =
     (replicate (n + 1) (replicate (capacity + 1) 0),
      replicate (n + 1) (replicate (capacity + 1) {}))"

text \<open>The two nested loops that populate the table.\<close>

definition classical_fill :: "nat list \<Rightarrow> int list list \<Rightarrow> nat \<Rightarrow> error + ctable" where
  "classical_fill weights profits capacity =
     foldE (\<lambda>k. foldE (classical_cell weights profits k) [0..<capacity + 1])
       [1..<length weights + 1] (classical_init (length weights) capacity)"

definition classical_dp_qkp ::
  "nat list \<Rightarrow> int list list \<Rightarrow> nat \<Rightarrow> error + (nat set \<times> int)" where
  "classical_dp_qkp weights profits capacity =
     (let n = length weights in
      bindE (classical_fill weights profits capacity) (\<lambda>(dp, tracker).
      bindE (py_max (dp ! n)) (\<lambda>max_profit.
      bindE (py_index (dp ! n) max_profit) (\<lambda>max_capacity.
      bindE (py_float max_profit) (\<lambda>returned_profit.
        Inr (tracker ! n ! max_capacity, returned_profit))))))"

subsection \<open>Heuristic engine A: dp_heuristic_algo2\<close>

type_synonym htable = "float64 list list \<times> nat set list list"

definition algo2_exclude :: "nat \<Rightarrow> nat \<Rightarrow> htable \<Rightarrow> htable" where
  "algo2_exclude k r = (\<lambda>(dp, selected_items).
     (upd2 dp k r (dp ! (k - 1) ! r), upd2 selected_items k r (selected_items ! (k - 1) ! r)))"

definition algo2_include ::
  "enumeration \<Rightarrow> nat list \<Rightarrow> int list list \<Rightarrow> nat \<Rightarrow> nat \<Rightarrow> htable \<Rightarrow> error + htable" where
  "algo2_include order weights profits k r = (\<lambda>(dp, selected_items).
     if r \<ge> weights ! (k - 1) then
       (let prev_r = r - weights ! (k - 1);
            prev_profit = dp ! (k - 1) ! prev_r
        in if prev_profit \<noteq> NegInf then
             bindE (candidate_profit profits (k - 1)
                      (order (k - 1) r (selected_items ! (k - 1) ! prev_r)) prev_profit)
               (\<lambda>current_profit.
                  if current_profit > dp ! k ! r \<or>
                     (current_profit = dp ! k ! r \<and>
                      card (selected_items ! (k - 1) ! prev_r) + 1 > card (selected_items ! k ! r))
                  then Inr (upd2 dp k r current_profit,
                            upd2 selected_items k r
                              (insert (k - 1) (selected_items ! (k - 1) ! prev_r)))
                  else Inr (dp, selected_items))
           else Inr (dp, selected_items))
     else Inr (dp, selected_items))"

definition algo2_cell ::
  "enumeration \<Rightarrow> nat list \<Rightarrow> int list list \<Rightarrow> nat \<Rightarrow> nat \<Rightarrow> htable \<Rightarrow> error + htable" where
  "algo2_cell order weights profits k r s =
     algo2_include order weights profits k r (algo2_exclude k r s)"

definition algo2_init :: "nat \<Rightarrow> nat \<Rightarrow> htable" where
  "algo2_init n capacity =
     (upd2 (replicate (n + 1) (replicate (capacity + 1) NegInf)) 0 0 (Finite 0),
      replicate (n + 1) (replicate (capacity + 1) {}))"

definition algo2_fill ::
  "enumeration \<Rightarrow> nat list \<Rightarrow> int list list \<Rightarrow> nat \<Rightarrow> error + htable" where
  "algo2_fill order weights profits capacity =
     foldE (\<lambda>k. foldE (algo2_cell order weights profits k) [0..<capacity + 1])
       [1..<length weights + 1] (algo2_init (length weights) capacity)"

definition dp_heuristic_algo2 ::
  "enumeration \<Rightarrow> nat list \<Rightarrow> int list list \<Rightarrow> nat \<Rightarrow> error + (nat set \<times> float64)" where
  "dp_heuristic_algo2 order weights profits capacity =
     (let n = length weights in
      bindE (algo2_fill order weights profits capacity) (\<lambda>(dp, selected_items).
      bindE (np_argmax (dp ! n)) (\<lambda>best_r.
        Inr (selected_items ! n ! best_r, dp ! n ! best_r))))"

subsection \<open>Heuristic engine B: dp_heuristic_algo3\<close>

type_synonym rolling = "float64 list \<times> nat set list"

definition algo3_cell ::
  "enumeration \<Rightarrow> nat list \<Rightarrow> int list list \<Rightarrow> nat \<Rightarrow> nat \<Rightarrow> rolling \<Rightarrow> error + rolling" where
  "algo3_cell order weights profits k r = (\<lambda>(dp, item_inclusion).
     (let prev_r = r - weights ! k in
      if dp ! prev_r \<noteq> NegInf then
        bindE (candidate_profit profits k (order k r (item_inclusion ! prev_r)) (dp ! prev_r))
          (\<lambda>current_profit.
             if current_profit > dp ! r \<or>
                (current_profit = dp ! r \<and>
                 card (item_inclusion ! prev_r) + 1 > card (item_inclusion ! r))
             then Inr (dp[r := current_profit],
                       item_inclusion[r := insert k (item_inclusion ! prev_r)])
             else Inr (dp, item_inclusion))
      else Inr (dp, item_inclusion)))"

text \<open>
  One pass for item \<open>k\<close>: \<^verbatim>\<open>range(capacity, weights[k] - 1, -1)\<close> enumerates
  \<open>capacity, capacity - 1, \<dots>, weights[k]\<close>, and nothing when \<open>weights[k] > capacity\<close>.
\<close>

definition algo3_pass ::
  "enumeration \<Rightarrow> nat list \<Rightarrow> int list list \<Rightarrow> nat \<Rightarrow> nat \<Rightarrow> rolling \<Rightarrow> error + rolling" where
  "algo3_pass order weights profits capacity k =
     foldE (algo3_cell order weights profits k) (rev [weights ! k..<capacity + 1])"

definition algo3_init :: "nat \<Rightarrow> rolling" where
  "algo3_init capacity =
     ((replicate (capacity + 1) NegInf)[0 := Finite 0], replicate (capacity + 1) {})"

definition algo3_fill ::
  "enumeration \<Rightarrow> nat list \<Rightarrow> int list list \<Rightarrow> nat \<Rightarrow> error + rolling" where
  "algo3_fill order weights profits capacity =
     foldE (algo3_pass order weights profits capacity) [0..<length weights]
       (algo3_init capacity)"

definition dp_heuristic_algo3 ::
  "enumeration \<Rightarrow> nat list \<Rightarrow> int list list \<Rightarrow> nat \<Rightarrow> error + (nat set \<times> float64)" where
  "dp_heuristic_algo3 order weights profits capacity =
     bindE (algo3_fill order weights profits capacity) (\<lambda>(dp, item_inclusion).
     bindE (py_max dp) (\<lambda>max_profit.
     bindE (np_argmax dp) (\<lambda>best_r.
       Inr (item_inclusion ! best_r, max_profit))))"

subsection \<open>The recurrence of the exact engine, in the words of the specification\<close>

text \<open>
  \<open>dp[0][r] = 0\<close> with the empty witness. For layer \<open>k + 1\<close> (item \<open>k\<close>) the exclude
  candidate is the cell of layer \<open>k\<close>; the include candidate exists when \<open>r \<ge> w\<^sub>k\<close> and
  is \<open>dp[k][r - w\<^sub>k] + p[k][k]\<close> plus the sum of \<open>p[k][j]\<close> over the witness of
  \<open>dp[k][r - w\<^sub>k]\<close>, with that witness extended by \<open>k\<close>; it wins only when strictly
  greater. The first component is the profit, the second the witness.
\<close>

fun spec_cell :: "nat list \<Rightarrow> int list list \<Rightarrow> nat \<Rightarrow> nat \<Rightarrow> int \<times> nat set" where
  "spec_cell w p 0 r = (0, {})"
| "spec_cell w p (Suc k) r =
     (let (ev, es) = spec_cell w p k r in
      if r \<ge> w ! k then
        (let (pv, ps) = spec_cell w p k (r - w ! k);
             cand = pv + p ! k ! k + (\<Sum>j\<in>ps. p ! k ! j)
         in if cand > ev then (cand, insert k ps) else (ev, es))
      else (ev, es))"

subsection \<open>The layers of the heuristic engines\<close>

text \<open>The include profit when every entry is present and convertible.\<close>

definition pure_candidate :: "int list list \<Rightarrow> nat \<Rightarrow> nat list \<Rightarrow> float64 \<Rightarrow> float64" where
  "pure_candidate p k js pv =
     foldl (\<lambda>acc j. fadd acc (to_double (p ! k ! j))) (fadd pv (to_double (p ! k ! k))) js"

text \<open>
  The cell \<open>(k, r)\<close> of the table of dp_heuristic_algo2, written as a function of the
  layer below. It is shown below that dp_heuristic_algo2 stores it in \<open>dp[k][r]\<close> and
  that dp_heuristic_algo3 holds it in \<open>dp[r]\<close> after \<open>k\<close> passes.
\<close>

fun hcell ::
  "enumeration \<Rightarrow> nat list \<Rightarrow> int list list \<Rightarrow> nat \<Rightarrow> nat \<Rightarrow> float64 \<times> nat set" where
  "hcell order w p 0 r = (if r = 0 then Finite 0 else NegInf, {})"
| "hcell order w p (Suc k) r =
     (let (ev, es) = hcell order w p k r in
      if r \<ge> w ! k then
        (let (pv, ps) = hcell order w p k (r - w ! k) in
         if pv \<noteq> NegInf then
           (let cand = pure_candidate p k (order k r ps) pv
            in if cand > ev \<or> (cand = ev \<and> card ps + 1 > card es)
               then (cand, insert k ps) else (ev, es))
         else (ev, es))
      else (ev, es))"

text \<open>The include candidate of cell \<open>(k + 1, r)\<close>.\<close>

definition hcand :: "enumeration \<Rightarrow> nat list \<Rightarrow> int list list \<Rightarrow> nat \<Rightarrow> nat \<Rightarrow> float64" where
  "hcand order w p k r =
     pure_candidate p k (order k r (snd (hcell order w p k (r - w ! k))))
       (fst (hcell order w p k (r - w ! k)))"

subsection \<open>Notions used to state the properties\<close>

text \<open>Total weight of a set of items.\<close>

definition weight_of :: "nat list \<Rightarrow> nat set \<Rightarrow> nat" where
  "weight_of weights S = (\<Sum>i\<in>S. weights ! i)"

text \<open>
  The profit the engines attribute to a set: the self-profits, plus for every pair the
  entry \<open>p[i][j]\<close> of the later item \<open>i\<close> against the earlier item \<open>j < i\<close>.
\<close>

definition engine_profit :: "int list list \<Rightarrow> nat set \<Rightarrow> int" where
  "engine_profit p S = (\<Sum>i\<in>S. p ! i ! i + (\<Sum>j\<in>{j \<in> S. j < i}. p ! i ! j))"

text \<open>The matrix has at least \<open>n\<close> rows, each of at least \<open>n\<close> entries.\<close>

definition covers :: "nat \<Rightarrow> int list list \<Rightarrow> bool" where
  "covers n p = (n \<le> length p \<and> (\<forall>i\<in>{0..<n}. n \<le> length (p ! i)))"

text \<open>
  The sum of the magnitudes of the \<open>n \<times> n\<close> entries the engines may read. When it is below
  \<open>2^53\<close>, every sum of entries is a double and float arithmetic on them is exact.
\<close>

definition total_abs :: "nat \<Rightarrow> int list list \<Rightarrow> int" where
  "total_abs n p = (\<Sum>i\<in>{0..<n}. \<Sum>j\<in>{0..<n}. \<bar>p ! i ! j\<bar>)"

definition exact_range :: "nat \<Rightarrow> int list list \<Rightarrow> bool" where
  "exact_range n p = (total_abs n p < 2 ^ 53)"

text \<open>Every entry of the \<open>n \<times> n\<close> block can be converted to a double.\<close>

definition convertible :: "nat \<Rightarrow> int list list \<Rightarrow> bool" where
  "convertible n p = (\<forall>i\<in>{0..<n}. \<forall>j\<in>{0..<n}. py_float (p ! i ! j) = Inr (to_double (p ! i ! j)))"

text \<open>
  An enumeration order lists every finite set without repetition; \<open>ascending\<close> is the one
  that lists a set in increasing order.
\<close>

definition enumerates :: "enumeration \<Rightarrow> bool" where
  "enumerates order = (\<forall>k r S. finite S \<longrightarrow> set (order k r S) = S \<and> distinct (order k r S))"

definition ascending :: enumeration where
  "ascending k r S = sorted_list_of_set S"

definition symmetric_upto :: "nat \<Rightarrow> int list list \<Rightarrow> bool" where
  "symmetric_upto n p = (\<forall>i\<in>{0..<n}. \<forall>j\<in>{0..<n}. p ! i ! j = p ! j ! i)"

text \<open>A table of \<open>n\<close> rows of \<open>c\<close> cells each.\<close>

definition shape2 :: "nat \<Rightarrow> nat \<Rightarrow> 'a list list \<Rightarrow> bool" where
  "shape2 n c t = (length t = n \<and> (\<forall>k<n. length (t ! k) = c))"

text \<open>
  The state of a two-dimensional fill when the loops stand at \<open>(k, r)\<close>: both tables have
  \<open>n + 1\<close> rows of \<open>c + 1\<close> cells, every row below \<open>k\<close> and the cells below \<open>r\<close>
  of row \<open>k\<close> hold the values of \<open>cell\<close>.
\<close>

definition agrees ::
  "(nat \<Rightarrow> nat \<Rightarrow> 'v \<times> nat set) \<Rightarrow> nat \<Rightarrow> nat \<Rightarrow> nat \<Rightarrow> nat \<Rightarrow>
     'v list list \<times> nat set list list \<Rightarrow> bool" where
  "agrees cell n c k r = (\<lambda>(dp, tr).
     shape2 (Suc n) (Suc c) dp \<and> shape2 (Suc n) (Suc c) tr \<and>
     (\<forall>j<k. \<forall>q\<le>c. (dp ! j ! q, tr ! j ! q) = cell j q) \<and>
     (\<forall>q<r. (dp ! k ! q, tr ! k ! q) = cell k q))"

text \<open>
  The state of the rolling array during pass \<open>k\<close>, when the cells \<open>b, b + 1, \<dots>, c\<close> have
  been visited: a visited cell holds layer \<open>k + 1\<close>, the others still hold layer \<open>k\<close>.
\<close>

definition rolling_agrees ::
  "(nat \<Rightarrow> nat \<Rightarrow> 'v \<times> nat set) \<Rightarrow> nat \<Rightarrow> nat \<Rightarrow> nat \<Rightarrow> 'v list \<times> nat set list \<Rightarrow> bool" where
  "rolling_agrees cell c k b = (\<lambda>(dp, inc).
     length dp = Suc c \<and> length inc = Suc c \<and>
     (\<forall>q\<le>c. (dp ! q, inc ! q) = (if b \<le> q then cell (Suc k) q else cell k q)))"

section \<open>Properties\<close>

subsection \<open>Loops\<close>

lemma bindE_Inr [simp]: "bindE (Inr x) f = f x"
  by (simp add: bindE_def)

lemma bindE_Inl [simp]: "bindE (Inl e) f = Inl e"
  by (simp add: bindE_def)

lemma bindE_eq_Inr: "bindE m f = Inr y \<longleftrightarrow> (\<exists>x. m = Inr x \<and> f x = Inr y)"
  by (cases m) auto

lemma foldE_append: "foldE f (xs @ ys) s = bindE (foldE f xs s) (foldE f ys)"
proof (induction xs arbitrary: s)
  case Nil
  show ?case by simp
next
  case (Cons x xs)
  show ?case by (cases "f x s") (simp_all add: Cons.IH)
qed

text \<open>A loop that only adds in-range reads computes a sum.\<close>

lemma foldE_sum:
  assumes "\<And>x. x \<in> set xs \<Longrightarrow> g x = Inr (h x)"
  shows "foldE (\<lambda>x acc. bindE (g x) (\<lambda>v. Inr (acc + v))) xs a = Inr (a + sum_list (map h xs))"
  using assms by (induction xs arbitrary: a) (simp_all add: add.assoc)

lemma foldE_sum_fails:
  assumes "x \<in> set xs" "g x = Inl e" "\<And>y. y \<in> set xs \<Longrightarrow> (\<exists>v. g y = Inr v) \<or> g y = Inl e"
  shows "foldE (\<lambda>x acc. bindE (g x) (\<lambda>v. Inr (acc + v))) xs a = Inl e"
  using assms
proof (induction xs arbitrary: a)
  case Nil
  then show ?case by simp
next
  case (Cons y ys)
  show ?case
  proof (cases "g y")
    case (Inl e')
    with Cons.prems(3)[of y] show ?thesis by simp
  next
    case (Inr v)
    with Cons.prems have "x \<in> set ys" by auto
    with Cons Inr show ?thesis by simp
  qed
qed

subsection \<open>Conversion to float\<close>

declare bit_length.simps [simp del]

lemma bit_length_le: "bit_length n \<le> k \<longleftrightarrow> n < 2 ^ k"
proof (induction k arbitrary: n)
  case 0
  show ?case by (subst bit_length.simps) auto
next
  case (Suc k)
  have "\<And>m :: int. n div 2 < m \<longleftrightarrow> n < 2 * m" by presburger
  then have d: "n div 2 < 2 ^ k \<longleftrightarrow> n < 2 ^ Suc k" by simp
  have pos: "n \<le> 0 \<Longrightarrow> n < 2 ^ Suc k"
    by (rule le_less_trans[of _ 0]) simp_all
  show ?case
    by (subst bit_length.simps) (use Suc[of "n div 2"] d pos in auto)
qed

lemma round_half_even_0 [simp]: "round_half_even n 0 = n"
  by (simp add: round_half_even_def)

lemma to_double_exact: "\<bar>n\<bar> < 2 ^ 53 \<Longrightarrow> to_double n = n"
proof -
  assume "\<bar>n\<bar> < 2 ^ 53"
  then have "bit_length \<bar>n\<bar> \<le> 53" by (simp only: bit_length_le)
  then show ?thesis by (simp add: to_double_def)
qed

lemma py_float_exact: "\<bar>n\<bar> < 2 ^ 53 \<Longrightarrow> py_float n = Inr n"
proof -
  assume a: "\<bar>n\<bar> < 2 ^ 53"
  have "(2::int) ^ 53 \<le> 2 ^ 1024" by (rule power_increasing) simp_all
  with a have "\<bar>n\<bar> < 2 ^ 1024" by (rule less_le_trans)
  then have "bit_length \<bar>n\<bar> \<le> 1024" by (simp only: bit_length_le)
  then show ?thesis by (simp add: py_float_def to_double_exact[OF a] Let_def)
qed

lemma py_float_0 [simp]: "py_float 0 = Inr 0"
  by (rule py_float_exact) simp

lemma round_half_even_nonneg: "0 \<le> n \<Longrightarrow> 0 \<le> round_half_even n e"
  by (simp add: round_half_even_def Let_def pos_imp_zdiv_nonneg_iff)

lemma to_double_nonneg: "0 \<le> n \<Longrightarrow> 0 \<le> to_double n"
  by (simp add: to_double_def round_half_even_nonneg)

lemma py_float_Inr: "py_float n = Inr v \<Longrightarrow> v = to_double n"
  by (simp add: py_float_def Let_def split: if_splits)

lemma py_float_nonneg: "py_float n = Inr v \<Longrightarrow> 0 \<le> n \<Longrightarrow> 0 \<le> v"
  using py_float_Inr to_double_nonneg by blast

lemma exact_bit_length: "\<bar>n\<bar> < 2 ^ 53 \<Longrightarrow> bit_length \<bar>n\<bar> \<le> 1024"
proof -
  assume a: "\<bar>n\<bar> < 2 ^ 53"
  have "(2::int) ^ 53 \<le> 2 ^ 1024" by (rule power_increasing) simp_all
  with a have "\<bar>n\<bar> < 2 ^ 1024" by (rule less_le_trans)
  then show ?thesis by (simp only: bit_length_le)
qed

subsection \<open>float64\<close>

lemma less_float64_simps [simp]:
  "NegInf < Finite a" "NegInf < PosInf" "Finite a < PosInf" "(Finite a < Finite b) = (a < b)"
  "\<not> Finite a < NegInf" "\<not> PosInf < Finite a" "\<not> PosInf < NegInf"
  by (auto simp: less_float64_def)

lemma not_less_NegInf [simp]: "\<not> x < NegInf"
  by (cases x) simp_all

lemma le_PosInf [simp]: "x \<le> PosInf"
  by (cases x) simp_all

lemma le_NegInf [simp]: "x \<le> NegInf \<longleftrightarrow> x = NegInf"
  by (cases x) simp_all

lemma Finite_le_cases: "Finite a \<le> v \<Longrightarrow> (\<exists>x. v = Finite x \<and> a \<le> x) \<or> v = PosInf"
  by (cases v) simp_all

lemma fadd_exact: "\<bar>x + y\<bar> < 2 ^ 53 \<Longrightarrow> fadd (Finite x) y = Finite (x + y)"
  using exact_bit_length[of "x + y"] by (simp add: to_double_exact Let_def)

declare fadd.simps(2) [simp del]

subsection \<open>The profit of an include transition\<close>

lemma get_profit_Inr: "get_profit p i j = Inr v \<Longrightarrow> v = p ! i ! j"
  by (simp add: get_profit_def split: if_splits)

lemma add_profit_Inr: "add_profit p i j acc = Inr v \<Longrightarrow> v = fadd acc (to_double (p ! i ! j))"
  by (auto simp: add_profit_def bindE_eq_Inr dest!: get_profit_Inr py_float_Inr)

lemma foldE_add_profit_Inr:
  "foldE (add_profit p k) js acc = Inr v \<Longrightarrow>
     v = foldl (\<lambda>acc j. fadd acc (to_double (p ! k ! j))) acc js"
proof (induction js arbitrary: acc)
  case Nil
  then show ?case by simp
next
  case (Cons j js)
  from Cons.prems obtain u where u: "add_profit p k j acc = Inr u" "foldE (add_profit p k) js u = Inr v"
    by (auto simp: bindE_eq_Inr)
  from Cons.IH[OF u(2)] add_profit_Inr[OF u(1)] show ?case by simp
qed

lemma candidate_profit_Inr:
  "candidate_profit p k js pv = Inr v \<Longrightarrow> v = pure_candidate p k js pv"
proof -
  assume "candidate_profit p k js pv = Inr v"
  then obtain u where u: "add_profit p k k pv = Inr u" "foldE (add_profit p k) js u = Inr v"
    by (auto simp: candidate_profit_def bindE_eq_Inr)
  from foldE_add_profit_Inr[OF u(2)] add_profit_Inr[OF u(1)] show ?thesis
    by (simp add: pure_candidate_def)
qed

subsection \<open>Pairs enumerated by combinations\<close>

lemma set_combinations2:
  "distinct xs \<Longrightarrow> (i, j) \<in> set (combinations2 xs) \<Longrightarrow> i \<in> set xs \<and> j \<in> set xs \<and> i \<noteq> j"
  by (induction xs) auto

lemma distinct_combinations2: "distinct xs \<Longrightarrow> distinct (combinations2 xs)"
proof (induction xs)
  case Nil
  show ?case by simp
next
  case (Cons x xs)
  have "distinct (map (Pair x) xs)"
    using Cons.prems by (simp add: distinct_map inj_on_def)
  moreover have "set (map (Pair x) xs) \<inter> set (combinations2 xs) = {}"
    using Cons.prems set_combinations2[of xs x] by auto
  ultimately show ?case using Cons by simp
qed

lemma combinations2_one_direction:
  "distinct xs \<Longrightarrow> i \<in> set xs \<Longrightarrow> j \<in> set xs \<Longrightarrow> i \<noteq> j \<Longrightarrow>
     ((i, j) \<in> set (combinations2 xs)) \<noteq> ((j, i) \<in> set (combinations2 xs))"
proof (induction xs)
  case Nil
  then show ?case by simp
next
  case (Cons x xs)
  show ?case
  proof (cases "i = x \<or> j = x")
    case True
    then show ?thesis
      using Cons.prems set_combinations2[of xs] by auto
  next
    case False
    then show ?thesis using Cons by auto
  qed
qed

subsection \<open>The validator\<close>

lemma covers_read: "covers n p \<Longrightarrow> i < n \<Longrightarrow> j < n \<Longrightarrow> i < length p \<and> j < length (p ! i)"
  unfolding covers_def by (metis atLeastLessThan_iff le0 less_le_trans)

lemma weight_sum_distinct:
  "distinct xs \<Longrightarrow> sum_list (map ((!) w) xs) = weight_of w (set xs)"
  by (simp add: weight_of_def sum_list_distinct_conv_sum_set)

lemma validator_weight_loop:
  assumes "set xs \<subseteq> {0..<length w}" "distinct xs"
  shows "foldE (\<lambda>i acc. bindE (get_weight w i) (\<lambda>v. Inr (acc + v))) xs 0 = Inr (weight_of w (set xs))"
proof -
  have "\<And>x. x \<in> set xs \<Longrightarrow> get_weight w x = Inr (w ! x)"
    using assms(1) by (auto simp: get_weight_def)
  from foldE_sum[of xs "get_weight w" "(!) w" 0, OF this]
  show ?thesis using assms(2) by (simp add: weight_sum_distinct)
qed

lemma validator_linear_loop:
  assumes "covers n p" "set xs \<subseteq> {0..<n}" "distinct xs"
  shows "foldE (\<lambda>i acc. bindE (get_profit p i i) (\<lambda>v. Inr (acc + v))) xs 0 = Inr (\<Sum>i\<in>set xs. p ! i ! i)"
proof -
  have "\<And>x. x \<in> set xs \<Longrightarrow> get_profit p x x = Inr (p ! x ! x)"
    using covers_read[OF assms(1)] assms(2) by (auto simp: get_profit_def)
  from foldE_sum[of xs "\<lambda>i. get_profit p i i" "\<lambda>i. p ! i ! i" 0, OF this]
  show ?thesis using assms(3) by (simp add: sum_list_distinct_conv_sum_set)
qed

lemma validator_pair_loop:
  assumes "covers n p" "set xs \<subseteq> {0..<n}" "distinct xs"
  shows "foldE (\<lambda>(i, j) acc. bindE (get_profit p i j) (\<lambda>v. Inr (acc + v))) (combinations2 xs) a
         = Inr (a + (\<Sum>(i, j)\<in>set (combinations2 xs). p ! i ! j))"
proof -
  have r: "\<And>x. x \<in> set (combinations2 xs) \<Longrightarrow>
            (\<lambda>(i, j). get_profit p i j) x = Inr ((\<lambda>(i, j). p ! i ! j) x)"
  proof -
    fix x assume x: "x \<in> set (combinations2 xs)"
    obtain i j where ij: "x = (i, j)" by (cases x)
    with x assms(3) set_combinations2[of xs i j] have "i \<in> set xs" "j \<in> set xs" by auto
    with covers_read[OF assms(1), of i j] assms(2) have "i < length p" "j < length (p ! i)" by (auto simp: subset_iff)
    then show "(\<lambda>(i, j). get_profit p i j) x = Inr ((\<lambda>(i, j). p ! i ! j) x)"
      by (simp add: ij get_profit_def)
  qed
  have e: "(\<lambda>(i, j) acc. bindE (get_profit p i j) (\<lambda>v. Inr (acc + v)))
         = (\<lambda>x acc. bindE ((\<lambda>(i, j). get_profit p i j) x) (\<lambda>v. Inr (acc + v)))"
    by (auto simp: fun_eq_iff)
  show ?thesis
    unfolding e
    using foldE_sum[of "combinations2 xs" "\<lambda>(i, j). get_profit p i j" "\<lambda>(i, j). p ! i ! j" a, OF r]
      distinct_combinations2[OF assms(3)]
    by (simp add: sum_list_distinct_conv_sum_set)
qed

lemma validator_value:
  assumes "distinct xs" "set xs \<subseteq> {0..<length w}" "covers n p" "set xs \<subseteq> {0..<n}"
  shows "compute_profit_and_items w p c xs =
           (if weight_of w (set xs) > c then Inr (None, {})
            else Inr (Some ((\<Sum>i\<in>set xs. p ! i ! i) + (\<Sum>(i, j)\<in>set (combinations2 xs). p ! i ! j)),
                      set xs))"
  unfolding compute_profit_and_items_def
  by (simp add: validator_weight_loop[OF assms(2,1)] validator_linear_loop[OF assms(3,4,1)]
        validator_pair_loop[OF assms(3,4,1)])

text \<open>
  C3. On a candidate set of valid item indices, enumerated without repetition, the
  validator returns \<open>(None, {})\<close> exactly when the total weight exceeds the capacity;
  otherwise it returns the candidate set unchanged, with the sum of the self-profits plus
  one entry \<open>p[i][j]\<close> for each pair enumerated by \<open>combinations\<close>. That enumeration
  has no repetition, holds only pairs of distinct members, and for two distinct members
  holds exactly one of \<open>(i, j)\<close> and \<open>(j, i)\<close>.
\<close>

theorem validator_contract:
  assumes "distinct xs" "set xs \<subseteq> {0..<length w}" "covers n p" "set xs \<subseteq> {0..<n}"
  shows "(compute_profit_and_items w p c xs = Inr (None, {}) \<longleftrightarrow> weight_of w (set xs) > c)
       \<and> (weight_of w (set xs) \<le> c \<longrightarrow>
            compute_profit_and_items w p c xs =
              Inr (Some ((\<Sum>i\<in>set xs. p ! i ! i)
                         + (\<Sum>(i, j)\<in>set (combinations2 xs). p ! i ! j)), set xs))
       \<and> distinct (combinations2 xs)
       \<and> (\<forall>(i, j)\<in>set (combinations2 xs). i \<in> set xs \<and> j \<in> set xs \<and> i \<noteq> j)
       \<and> (\<forall>i\<in>set xs. \<forall>j\<in>set xs. i \<noteq> j \<longrightarrow>
            ((i, j) \<in> set (combinations2 xs)) \<noteq> ((j, i) \<in> set (combinations2 xs)))"
proof -
  have a: "compute_profit_and_items w p c xs = Inr (None, {}) \<longleftrightarrow> weight_of w (set xs) > c"
    by (simp add: validator_value[OF assms])
  have b: "weight_of w (set xs) \<le> c \<longrightarrow>
            compute_profit_and_items w p c xs =
              Inr (Some ((\<Sum>i\<in>set xs. p ! i ! i)
                         + (\<Sum>(i, j)\<in>set (combinations2 xs). p ! i ! j)), set xs)"
    by (simp add: validator_value[OF assms])
  have c: "\<forall>(i, j)\<in>set (combinations2 xs). i \<in> set xs \<and> j \<in> set xs \<and> i \<noteq> j"
    using set_combinations2[OF assms(1)] by blast
  have d: "\<forall>i\<in>set xs. \<forall>j\<in>set xs. i \<noteq> j \<longrightarrow>
            ((i, j) \<in> set (combinations2 xs)) \<noteq> ((j, i) \<in> set (combinations2 xs))"
    using combinations2_one_direction[OF assms(1)] by blast
  from a b c d distinct_combinations2[OF assms(1)] show ?thesis by blast
qed

theorem validator_contract_witness:
  "compute_profit_and_items [3, 4, 5] [[10, 2, 3], [2, 5, 4], [3, 4, 7]] 7 [0, 1] = Inr (Some 17, {0, 1})
   \<and> compute_profit_and_items [3, 4, 5] [[10, 2, 3], [2, 5, 4], [3, 4, 7]] 6 [0, 1] = Inr (None, {})"
proof -
  have h1: "distinct [0, 1 :: nat]" by simp
  have h2: "set [0, 1 :: nat] \<subseteq> {0..<length [3, 4, 5 :: nat]}" by simp
  have h3: "covers 3 [[10, 2, 3], [2, 5, 4], [3, 4, 7]]" by code_simp
  have h4: "set [0, 1 :: nat] \<subseteq> {0..<3}" by simp
  have w: "weight_of [3, 4, 5] (set [0, 1]) = 7" by (simp add: weight_of_def)
  from validator_contract[OF h1 h2 h3 h4, of 7] validator_contract[OF h1 h2 h3 h4, of 6] w
  show ?thesis by simp
qed

subsection \<open>Loop rules\<close>

lemma bindE_return [simp]: "bindE m Inr = m"
  by (cases m) simp_all

lemma foldE_Nil_fun: "foldE f [] = Inr"
  by (rule ext) simp

lemma foldE_single [simp]: "foldE f [x] s = f x s"
  by (simp add: foldE_Nil_fun)

lemma foldE_upt_Suc:
  "foldE f [a..<Suc b] s = bindE (foldE f [a..<b] s) (f b)" if "a \<le> b"
proof -
  have "foldE f [b] = f b" by (rule ext) (simp add: foldE_Nil_fun)
  then show ?thesis using that by (simp add: foldE_append)
qed

lemma foldE_rev_upt_Suc:
  "foldE f (rev [a..<b]) s = bindE (foldE f (rev [Suc a..<b]) s) (f a)" if "a < b"
proof -
  have "foldE f [a] = f a" by (rule ext) (simp add: foldE_Nil_fun)
  then show ?thesis using that by (simp add: upt_conv_Cons foldE_append)
qed

lemma foldE_upt_invariant:
  assumes "foldE f [a..<b] s = Inr t" "a \<le> b" "I a s"
    and step: "\<And>k u u'. a \<le> k \<Longrightarrow> k < b \<Longrightarrow> I k u \<Longrightarrow> f k u = Inr u' \<Longrightarrow> I (Suc k) u'"
  shows "I b t"
  using assms
proof (induction b arbitrary: t)
  case 0
  then show ?case by simp
next
  case (Suc b)
  show ?case
  proof (cases "a = Suc b")
    case True
    with Suc.prems show ?thesis by simp
  next
    case False
    with Suc.prems have ab: "a \<le> b" by simp
    from Suc.prems(1) obtain u where u: "foldE f [a..<b] s = Inr u" "f b u = Inr t"
      unfolding foldE_upt_Suc[OF ab] bindE_eq_Inr by blast
    have "I b u"
      by (rule Suc.IH[OF u(1) ab Suc.prems(3)]) (use Suc.prems(4) in auto)
    with Suc.prems(4)[OF ab _ _ u(2)] show ?thesis by simp
  qed
qed

lemma foldE_upt_total:
  assumes "a \<le> b" "I a s"
    and step: "\<And>k u u'. a \<le> k \<Longrightarrow> k < b \<Longrightarrow> I k u \<Longrightarrow> f k u = Inr u' \<Longrightarrow> I (Suc k) u'"
    and prog: "\<And>k u. a \<le> k \<Longrightarrow> k < b \<Longrightarrow> I k u \<Longrightarrow> \<exists>u'. f k u = Inr u'"
  shows "\<exists>t. foldE f [a..<b] s = Inr t"
  using assms
proof (induction b)
  case 0
  then show ?case by simp
next
  case (Suc b)
  show ?case
  proof (cases "a = Suc b")
    case True
    then show ?thesis by simp
  next
    case False
    with Suc.prems have ab: "a \<le> b" by simp
    have "\<exists>t. foldE f [a..<b] s = Inr t"
      by (rule Suc.IH[OF ab Suc.prems(2)]) (use Suc.prems(3,4) in auto)
    then obtain u where u: "foldE f [a..<b] s = Inr u" by blast
    have "I b u"
      by (rule foldE_upt_invariant[where I=I, OF u ab Suc.prems(2)]) (use Suc.prems(3) in auto)
    with Suc.prems(4)[OF ab, of u] obtain t where "f b u = Inr t" by auto
    with u have "foldE f [a..<Suc b] s = Inr t"
      unfolding foldE_upt_Suc[OF ab] by simp
    then show ?thesis by blast
  qed
qed

lemma foldE_rev_upt_invariant:
  assumes "foldE f (rev [a..<b]) s = Inr t" "a \<le> b" "I b s"
    and step: "\<And>k u u'. a \<le> k \<Longrightarrow> k < b \<Longrightarrow> I (Suc k) u \<Longrightarrow> f k u = Inr u' \<Longrightarrow> I k u'"
  shows "I a t"
  using assms
proof (induction "b - a" arbitrary: a t)
  case 0
  then show ?case by simp
next
  case (Suc d)
  then have ab: "a < b" and d: "d = b - Suc a" and sab: "Suc a \<le> b" by auto
  from Suc.prems(1) obtain u where u: "foldE f (rev [Suc a..<b]) s = Inr u" "f a u = Inr t"
    unfolding foldE_rev_upt_Suc[OF ab] bindE_eq_Inr by blast
  have "I (Suc a) u"
    by (rule Suc.hyps(1)[OF d u(1) sab Suc.prems(3)]) (use Suc.prems(4) in auto)
  with Suc.prems(4)[OF _ ab _ u(2)] show ?case by simp
qed

lemma foldE_rev_upt_total:
  assumes "a \<le> b" "I b s"
    and step: "\<And>k u u'. a \<le> k \<Longrightarrow> k < b \<Longrightarrow> I (Suc k) u \<Longrightarrow> f k u = Inr u' \<Longrightarrow> I k u'"
    and prog: "\<And>k u. a \<le> k \<Longrightarrow> k < b \<Longrightarrow> I (Suc k) u \<Longrightarrow> \<exists>u'. f k u = Inr u'"
  shows "\<exists>t. foldE f (rev [a..<b]) s = Inr t"
  using assms
proof (induction "b - a" arbitrary: a)
  case 0
  then show ?case by simp
next
  case (Suc d)
  then have ab: "a < b" and d: "d = b - Suc a" and sab: "Suc a \<le> b" by auto
  have "\<exists>t. foldE f (rev [Suc a..<b]) s = Inr t"
    by (rule Suc.hyps(1)[OF d sab Suc.prems(2)]) (use Suc.prems(3,4) in auto)
  then obtain u where u: "foldE f (rev [Suc a..<b]) s = Inr u" by blast
  have "I (Suc a) u"
    by (rule foldE_rev_upt_invariant[where I=I, OF u sab Suc.prems(2)]) (use Suc.prems(3) in auto)
  with Suc.prems(4)[OF _ ab, of u] obtain t where "f a u = Inr t" by auto
  with u have "foldE f (rev [a..<b]) s = Inr t"
    unfolding foldE_rev_upt_Suc[OF ab] by simp
  then show ?case by blast
qed

subsection \<open>Tables\<close>

lemma length_upd2 [simp]: "length (upd2 t k r v) = length t"
  by (simp add: upd2_def)

lemma length_upd2_row [simp]: "j < length t \<Longrightarrow> length (upd2 t k r v ! j) = length (t ! j)"
  by (cases "j = k") (simp_all add: upd2_def)

lemma shape2_upd2 [simp]: "shape2 n c (upd2 t k r v) = shape2 n c t"
  by (auto simp: shape2_def)

lemma upd2_same: "shape2 n c t \<Longrightarrow> k < n \<Longrightarrow> r < c \<Longrightarrow> upd2 t k r v ! k ! r = v"
  by (simp add: shape2_def upd2_def)

lemma upd2_other: "k' \<noteq> k \<or> r' \<noteq> r \<Longrightarrow> upd2 t k r v ! k' ! r' = t ! k' ! r'"
  by (cases "k < length t") (auto simp: upd2_def nth_list_update list_update_beyond)

lemma upd2_other_row: "k' \<noteq> k \<Longrightarrow> upd2 t k r v ! k' = t ! k'"
  by (simp add: upd2_def)

lemma shape2_replicate: "shape2 n c (replicate n (replicate c x))"
  by (simp add: shape2_def)

lemma nth_replicate2: "k < n \<Longrightarrow> r < c \<Longrightarrow> replicate n (replicate c x) ! k ! r = x"
  by simp

subsection \<open>Profit and weight of a set extended by a later item\<close>

lemma engine_profit_empty [simp]: "engine_profit p {} = 0"
  by (simp add: engine_profit_def)

lemma weight_of_empty [simp]: "weight_of w {} = 0"
  by (simp add: weight_of_def)

lemma finite_below: "(S :: nat set) \<subseteq> {0..<k} \<Longrightarrow> finite S"
  by (rule finite_subset[of _ "{0..<k}"]) simp_all

lemma engine_profit_insert:
  assumes "S \<subseteq> {0..<k}"
  shows "engine_profit p (insert k S) = engine_profit p S + p ! k ! k + (\<Sum>j\<in>S. p ! k ! j)"
proof -
  have fin: "finite S" using assms by (rule finite_below)
  have notin: "k \<notin> S" using assms by auto
  have a: "{j. (j = k \<or> j \<in> S) \<and> j < k} = S" using assms by auto
  have b: "\<And>i. i \<in> S \<Longrightarrow> {j. (j = k \<or> j \<in> S) \<and> j < i} = {j \<in> S. j < i}"
    using assms by auto
  have "engine_profit p (insert k S) =
          (p ! k ! k + (\<Sum>j\<in>{j \<in> insert k S. j < k}. p ! k ! j))
          + (\<Sum>i\<in>S. p ! i ! i + (\<Sum>j\<in>{j \<in> insert k S. j < i}. p ! i ! j))"
    unfolding engine_profit_def using fin notin by simp
  also have "(\<Sum>i\<in>S. p ! i ! i + (\<Sum>j\<in>{j \<in> insert k S. j < i}. p ! i ! j)) = engine_profit p S"
    unfolding engine_profit_def by (rule sum.cong) (simp_all add: b)
  finally show ?thesis by (simp add: a)
qed

lemma weight_of_insert:
  assumes "S \<subseteq> {0..<k}"
  shows "weight_of w (insert k S) = weight_of w S + w ! k"
proof -
  have "finite S" "k \<notin> S" using assms finite_below by auto
  then show ?thesis by (simp add: weight_of_def)
qed

lemma card_insert_below: "(S :: nat set) \<subseteq> {0..<k} \<Longrightarrow> card (insert k S) = card S + 1"
proof -
  assume a: "S \<subseteq> {0..<k}"
  then have "finite S" "k \<notin> S" using finite_below by auto
  then show ?thesis by simp
qed

text \<open>Sums of entries of a matrix in the exact range.\<close>

lemma row_part_bound:
  fixes p :: "int list list"
  assumes "J \<subseteq> {0..<n}"
  shows "\<bar>\<Sum>j\<in>J. p ! i ! j\<bar> \<le> (\<Sum>j\<in>{0..<n}. \<bar>p ! i ! j\<bar>)"
proof -
  have "\<bar>\<Sum>j\<in>J. p ! i ! j\<bar> \<le> (\<Sum>j\<in>J. \<bar>p ! i ! j\<bar>)"
    by (rule sum_abs)
  also have "\<dots> \<le> (\<Sum>j\<in>{0..<n}. \<bar>p ! i ! j\<bar>)"
    by (rule sum_mono2) (use assms in auto)
  finally show ?thesis .
qed

lemma engine_profit_rows:
  assumes "S \<subseteq> {0..<n}"
  shows "\<bar>engine_profit p S\<bar> \<le> (\<Sum>i\<in>S. \<Sum>j\<in>{0..<n}. \<bar>p ! i ! j\<bar>)"
proof -
  have fin: "finite S" using assms by (rule finite_below)
  have "\<bar>engine_profit p S\<bar> \<le> (\<Sum>i\<in>S. \<bar>p ! i ! i + (\<Sum>j\<in>{j \<in> S. j < i}. p ! i ! j)\<bar>)"
    unfolding engine_profit_def by (rule sum_abs)
  also have "\<dots> \<le> (\<Sum>i\<in>S. \<Sum>j\<in>{0..<n}. \<bar>p ! i ! j\<bar>)"
  proof (rule sum_mono)
    fix i assume i: "i \<in> S"
    have f: "finite {j \<in> S. j < i}" using fin by simp
    have "p ! i ! i + (\<Sum>j\<in>{j \<in> S. j < i}. p ! i ! j) = (\<Sum>j\<in>insert i {j \<in> S. j < i}. p ! i ! j)"
      using f by simp
    moreover have "insert i {j \<in> S. j < i} \<subseteq> {0..<n}" using assms i by auto
    ultimately show "\<bar>p ! i ! i + (\<Sum>j\<in>{j \<in> S. j < i}. p ! i ! j)\<bar> \<le> (\<Sum>j\<in>{0..<n}. \<bar>p ! i ! j\<bar>)"
      using row_part_bound[of "insert i {j \<in> S. j < i}" n p i] by simp
  qed
  finally show ?thesis .
qed

lemma engine_profit_bound:
  assumes "S \<subseteq> {0..<n}"
  shows "\<bar>engine_profit p S\<bar> \<le> total_abs n p"
proof -
  have "(\<Sum>i\<in>S. \<Sum>j\<in>{0..<n}. \<bar>p ! i ! j\<bar>) \<le> total_abs n p"
    unfolding total_abs_def by (rule sum_mono2) (use assms in \<open>auto intro: sum_nonneg\<close>)
  with engine_profit_rows[OF assms, of p] show ?thesis by linarith
qed

subsection \<open>The recurrence of the exact engine\<close>

lemma spec_cell_Suc:
  "spec_cell w p (Suc k) r =
     (if w ! k \<le> r \<and>
         fst (spec_cell w p k r) <
           fst (spec_cell w p k (r - w ! k)) + p ! k ! k
             + (\<Sum>j\<in>snd (spec_cell w p k (r - w ! k)). p ! k ! j)
      then (fst (spec_cell w p k (r - w ! k)) + p ! k ! k
              + (\<Sum>j\<in>snd (spec_cell w p k (r - w ! k)). p ! k ! j),
            insert k (snd (spec_cell w p k (r - w ! k))))
      else spec_cell w p k r)"
  by (simp add: Let_def split: prod.splits)

lemma spec_cell_subset: "snd (spec_cell w p k r) \<subseteq> {0..<k}"
proof (induction k arbitrary: r)
  case 0
  show ?case by simp
next
  case (Suc k)
  have "snd (spec_cell w p k r) \<subseteq> {0..<Suc k}"
       "insert k (snd (spec_cell w p k (r - w ! k))) \<subseteq> {0..<Suc k}"
    using Suc[of r] Suc[of "r - w ! k"] by auto
  then show ?case unfolding spec_cell_Suc by simp
qed

lemma spec_cell_profit: "fst (spec_cell w p k r) = engine_profit p (snd (spec_cell w p k r))"
proof (induction k arbitrary: r)
  case 0
  show ?case by simp
next
  case (Suc k)
  show ?case
    unfolding spec_cell_Suc
    by (simp add: engine_profit_insert[OF spec_cell_subset] Suc)
qed

lemma spec_cell_weight: "weight_of w (snd (spec_cell w p k r)) \<le> r"
proof (induction k arbitrary: r)
  case 0
  show ?case by simp
next
  case (Suc k)
  show ?case
    unfolding spec_cell_Suc
    using Suc[of r] Suc[of "r - w ! k"]
    by (auto simp: weight_of_insert[OF spec_cell_subset])
qed

lemma spec_cell_mono: "fst (spec_cell w p k r) \<le> fst (spec_cell w p (Suc k) r)"
  unfolding spec_cell_Suc by simp

lemma spec_cell_nonneg: "0 \<le> fst (spec_cell w p k r)"
proof (induction k)
  case 0
  show ?case by simp
next
  case (Suc k)
  then show ?case using spec_cell_mono[of w p k r] by linarith
qed

subsection \<open>Float sums in the exact range\<close>

lemma foldl_fadd_exact:
  fixes p :: "int list list"
  assumes "distinct js"
    and "\<And>J. J \<subseteq> set js \<Longrightarrow> \<bar>a + (\<Sum>j\<in>J. p ! k ! j)\<bar> < 2 ^ 53"
    and "\<And>j. j \<in> set js \<Longrightarrow> \<bar>p ! k ! j\<bar> < 2 ^ 53"
  shows "foldl (\<lambda>acc j. fadd acc (to_double (p ! k ! j))) (Finite a) js
         = Finite (a + (\<Sum>j\<in>set js. p ! k ! j))"
  using assms
proof (induction js arbitrary: a)
  case Nil
  show ?case by simp
next
  case (Cons j js)
  have 1: "to_double (p ! k ! j) = p ! k ! j" using Cons.prems(3) by (simp add: to_double_exact)
  have "\<bar>a + (\<Sum>i\<in>{j}. p ! k ! i)\<bar> < 2 ^ 53" by (rule Cons.prems(2)) simp
  then have 2: "fadd (Finite a) (p ! k ! j) = Finite (a + p ! k ! j)"
    using fadd_exact[of a "p ! k ! j"] by simp
  have 3: "foldl (\<lambda>acc j. fadd acc (to_double (p ! k ! j))) (Finite (a + p ! k ! j)) js
           = Finite (a + p ! k ! j + (\<Sum>i\<in>set js. p ! k ! i))"
  proof (rule Cons.IH)
    show "distinct js" using Cons.prems(1) by simp
  next
    fix J assume J: "J \<subseteq> set js"
    then have "finite J" using finite_subset by blast
    moreover have "j \<notin> J" using Cons.prems(1) J by auto
    ultimately have "a + p ! k ! j + (\<Sum>i\<in>J. p ! k ! i) = a + (\<Sum>i\<in>insert j J. p ! k ! i)"
      by simp
    moreover have "insert j J \<subseteq> set (j # js)" using J by auto
    ultimately show "\<bar>a + p ! k ! j + (\<Sum>i\<in>J. p ! k ! i)\<bar> < 2 ^ 53"
      using Cons.prems(2)[of "insert j J"] by simp
  next
    fix i assume "i \<in> set js"
    then show "\<bar>p ! k ! i\<bar> < 2 ^ 53" using Cons.prems(3) by simp
  qed
  show ?case using Cons.prems(1) by (simp add: 1 2 3)
qed

lemma exact_range_entry:
  assumes "exact_range n p" "i < n" "j < n"
  shows "\<bar>p ! i ! j\<bar> < 2 ^ 53"
proof -
  have "\<bar>\<Sum>j\<in>{j}. p ! i ! j\<bar> \<le> (\<Sum>j\<in>{0..<n}. \<bar>p ! i ! j\<bar>)"
    by (rule row_part_bound) (use assms(3) in simp)
  also have "\<dots> \<le> total_abs n p"
    unfolding total_abs_def
    using member_le_sum[of i "{0..<n}" "\<lambda>i. \<Sum>j\<in>{0..<n}. \<bar>p ! i ! j\<bar>"] assms(2)
    by (simp add: sum_nonneg)
  finally show ?thesis using assms(1) by (simp add: exact_range_def)
qed


lemma pure_candidate_exact:
  assumes ex: "exact_range n p" and kn: "k < n" and S: "S \<subseteq> {0..<k}"
    and js: "set js = S" "distinct js"
  shows "pure_candidate p k js (Finite (engine_profit p S)) = Finite (engine_profit p (insert k S))"
proof -
  define row where "row i = (\<Sum>j\<in>{0..<n}. \<bar>p ! i ! j\<bar>)" for i
  have fin: "finite S" and notin: "k \<notin> S" using S finite_below by auto
  have Sn: "S \<subseteq> {0..<n}" using S kn by auto
  have "(\<Sum>i\<in>insert k S. row i) \<le> (\<Sum>i\<in>{0..<n}. row i)"
    by (rule sum_mono2) (use Sn kn in \<open>auto simp: row_def intro: sum_nonneg\<close>)
  then have tot: "row k + (\<Sum>i\<in>S. row i) < 2 ^ 53"
    using ex fin notin by (simp add: exact_range_def total_abs_def row_def)
  have b: "\<bar>engine_profit p S\<bar> \<le> (\<Sum>i\<in>S. row i)"
    using engine_profit_rows[OF Sn, of p] by (simp add: row_def)
  have bound: "\<bar>engine_profit p S + p ! k ! k + (\<Sum>j\<in>J. p ! k ! j)\<bar> < 2 ^ 53" if J: "J \<subseteq> S" for J
  proof -
    have "finite J" "k \<notin> J" using J fin notin finite_subset by auto
    then have "p ! k ! k + (\<Sum>j\<in>J. p ! k ! j) = (\<Sum>j\<in>insert k J. p ! k ! j)" by simp
    moreover have "insert k J \<subseteq> {0..<n}" using J Sn kn by auto
    ultimately have "\<bar>p ! k ! k + (\<Sum>j\<in>J. p ! k ! j)\<bar> \<le> row k"
      using row_part_bound[of "insert k J" n p k] by (simp add: row_def)
    with b tot show ?thesis by linarith
  qed
  have e0: "\<bar>p ! k ! k\<bar> < 2 ^ 53" by (rule exact_range_entry[OF ex kn kn])
  have ej: "\<bar>p ! k ! j\<bar> < 2 ^ 53" if "j \<in> set js" for j
    by (rule exact_range_entry[OF ex kn]) (use that js(1) Sn in auto)
  have first: "fadd (Finite (engine_profit p S)) (to_double (p ! k ! k))
               = Finite (engine_profit p S + p ! k ! k)"
    using bound[of "{}"] e0 fadd_exact[of "engine_profit p S" "p ! k ! k"]
    by (simp add: to_double_exact)
  have "foldl (\<lambda>acc j. fadd acc (to_double (p ! k ! j))) (Finite (engine_profit p S + p ! k ! k)) js
        = Finite (engine_profit p S + p ! k ! k + (\<Sum>j\<in>set js. p ! k ! j))"
    by (rule foldl_fadd_exact[OF js(2)]) (use bound js(1) ej in auto)
  then show ?thesis
    by (simp add: pure_candidate_def first js(1) engine_profit_insert[OF S])
qed

subsection \<open>The layers of the heuristic engines\<close>

lemma hcell_Suc:
  "hcell order w p (Suc k) r =
     (if w ! k \<le> r \<and> fst (hcell order w p k (r - w ! k)) \<noteq> NegInf \<and>
         (fst (hcell order w p k r) < hcand order w p k r \<or>
          hcand order w p k r = fst (hcell order w p k r) \<and>
          card (snd (hcell order w p k r)) < card (snd (hcell order w p k (r - w ! k))) + 1)
      then (hcand order w p k r, insert k (snd (hcell order w p k (r - w ! k))))
      else hcell order w p k r)"
  by (simp add: Let_def hcand_def split: prod.splits)

lemma hcell_subset: "snd (hcell order w p k r) \<subseteq> {0..<k}"
proof (induction k arbitrary: r)
  case 0
  show ?case by simp
next
  case (Suc k)
  have "snd (hcell order w p k r) \<subseteq> {0..<Suc k}"
       "insert k (snd (hcell order w p k (r - w ! k))) \<subseteq> {0..<Suc k}"
    using Suc[of r] Suc[of "r - w ! k"] by auto
  then show ?case unfolding hcell_Suc by simp
qed

text \<open>
  A witness weighs exactly \<open>r\<close>, except in a cell that no transition has reached. (A cell
  that holds \<open>NegInf\<close> may have been reached: a sum can overflow to \<open>NegInf\<close>.)
\<close>

lemma hcell_weight:
  "weight_of w (snd (hcell order w p k r)) = r
   \<or> (fst (hcell order w p k r) = NegInf \<and> snd (hcell order w p k r) = {})"
proof (induction k arbitrary: r)
  case 0
  show ?case by simp
next
  case (Suc k)
  show ?case
    unfolding hcell_Suc
    using Suc[of r] Suc[of "r - w ! k"]
    by (auto simp: weight_of_insert[OF hcell_subset])
qed

lemma hcell_weight_le: "weight_of w (snd (hcell order w p k r)) \<le> r"
  using hcell_weight[of w order p k r] by auto

lemma hcell_mono: "fst (hcell order w p k r) \<le> fst (hcell order w p (Suc k) r)"
  unfolding hcell_Suc by auto

lemma hcell_zero: "Finite 0 \<le> fst (hcell order w p k 0)"
proof (induction k)
  case 0
  show ?case by simp
next
  case (Suc k)
  then show ?case using hcell_mono[of order w p k 0] by (rule order_trans)
qed

lemma hcell_too_heavy: "r < w ! k \<Longrightarrow> hcell order w p (Suc k) r = hcell order w p k r"
  unfolding hcell_Suc by simp

text \<open>In the exact range a cell is unreached or holds the profit of its witness.\<close>

lemma hcell_profit:
  assumes "exact_range n p" "enumerates order" "k \<le> n"
  shows "fst (hcell order w p k r) = NegInf
         \<or> fst (hcell order w p k r) = Finite (engine_profit p (snd (hcell order w p k r)))"
  using assms(3)
proof (induction k arbitrary: r)
  case 0
  show ?case by simp
next
  case (Suc k)
  then have kn: "k < n" and IH: "\<And>r. fst (hcell order w p k r) = NegInf
         \<or> fst (hcell order w p k r) = Finite (engine_profit p (snd (hcell order w p k r)))"
    by auto
  let ?ps = "snd (hcell order w p k (r - w ! k))"
  have sub: "?ps \<subseteq> {0..<k}" by (rule hcell_subset)
  then have "finite ?ps" by (rule finite_below)
  with assms(2) have en: "set (order k r ?ps) = ?ps" "distinct (order k r ?ps)"
    by (auto simp: enumerates_def)
  have cand: "hcand order w p k r = Finite (engine_profit p (insert k ?ps))"
    if "fst (hcell order w p k (r - w ! k)) \<noteq> NegInf"
  proof -
    from that IH[of "r - w ! k"]
    have "fst (hcell order w p k (r - w ! k)) = Finite (engine_profit p ?ps)" by simp
    then show ?thesis
      unfolding hcand_def using pure_candidate_exact[OF assms(1) kn sub en] by simp
  qed
  show ?case
    unfolding hcell_Suc using cand IH[of r] by auto
qed

declare spec_cell.simps(2) [simp del]
declare hcell.simps(2) [simp del]

subsection \<open>Reads of the profit matrix\<close>

lemma add_interactions_Inr:
  "add_interactions p i S a = Inr v \<Longrightarrow> v = a + (\<Sum>j\<in>S. p ! i ! j)"
  by (simp add: add_interactions_def split: if_splits)

lemma get_profit_covers: "covers n p \<Longrightarrow> i < n \<Longrightarrow> j < n \<Longrightarrow> get_profit p i j = Inr (p ! i ! j)"
  using covers_read[of n p i j] by (simp add: get_profit_def)

lemma add_interactions_covers:
  assumes "covers n p" "i < n" "S \<subseteq> {0..<i}"
  shows "add_interactions p i S a = Inr (a + (\<Sum>j\<in>S. p ! i ! j))"
proof -
  have "\<forall>j\<in>S. i < length p \<and> j < length (p ! i)"
  proof
    fix j assume "j \<in> S"
    with assms(2,3) have "j < n" by auto
    with covers_read[OF assms(1,2)] show "i < length p \<and> j < length (p ! i)" by simp
  qed
  then show ?thesis by (simp add: add_interactions_def)
qed

subsection \<open>Updates of one cell\<close>

lemma upd2_upd2 [simp]: "upd2 (upd2 t k r a) k r b = upd2 t k r b"
  by (cases "k < length t") (simp_all add: upd2_def list_update_beyond)

lemma agrees_upd2:
  assumes "agrees cell n c k r (dp, tr)" "k \<le> n" "r \<le> c" "(v, S) = cell k r"
  shows "agrees cell n c k (Suc r) (upd2 dp k r v, upd2 tr k r S)"
proof -
  from assms(1) have sh: "shape2 (Suc n) (Suc c) dp" "shape2 (Suc n) (Suc c) tr"
    and below: "\<And>j q. j < k \<Longrightarrow> q \<le> c \<Longrightarrow> (dp ! j ! q, tr ! j ! q) = cell j q"
    and left: "\<And>q. q < r \<Longrightarrow> (dp ! k ! q, tr ! k ! q) = cell k q"
    by (auto simp: agrees_def)
  have kn: "k < Suc n" and rc: "r < Suc c" using assms(2,3) by auto
  have 1: "\<And>j q. j < k \<Longrightarrow> q \<le> c \<Longrightarrow>
             (upd2 dp k r v ! j ! q, upd2 tr k r S ! j ! q) = cell j q"
    using below by (simp add: upd2_other)
  have 2: "\<And>q. q < Suc r \<Longrightarrow> (upd2 dp k r v ! k ! q, upd2 tr k r S ! k ! q) = cell k q"
  proof -
    fix q assume "q < Suc r"
    then consider "q = r" | "q < r" by linarith
    then show "(upd2 dp k r v ! k ! q, upd2 tr k r S ! k ! q) = cell k q"
    proof cases
      case 1
      then show ?thesis
        using upd2_same[OF sh(1) kn rc] upd2_same[OF sh(2) kn rc] assms(4) by simp
    next
      case 2
      then show ?thesis using left by (simp add: upd2_other)
    qed
  qed
  show ?thesis
    unfolding agrees_def using sh 1 2 by simp
qed

lemma agrees_next_row:
  assumes "agrees cell n c k (Suc c) s"
  shows "agrees cell n c (Suc k) 0 s"
proof -
  obtain dp tr where s: "s = (dp, tr)" by (cases s)
  from assms have a: "shape2 (Suc n) (Suc c) dp" "shape2 (Suc n) (Suc c) tr"
    and b: "\<And>j q. j < k \<Longrightarrow> q \<le> c \<Longrightarrow> (dp ! j ! q, tr ! j ! q) = cell j q"
    and c: "\<And>q. q \<le> c \<Longrightarrow> (dp ! k ! q, tr ! k ! q) = cell k q"
    by (auto simp: agrees_def s less_Suc_eq_le)
  have "\<And>j q. j < Suc k \<Longrightarrow> q \<le> c \<Longrightarrow> (dp ! j ! q, tr ! j ! q) = cell j q"
    using b c by (metis less_antisym)
  with a show ?thesis by (simp add: agrees_def s)
qed

lemma agrees_cell:
  "agrees cell n c k r (dp, tr) \<Longrightarrow> j < k \<Longrightarrow> q \<le> c \<Longrightarrow> (dp ! j ! q, tr ! j ! q) = cell j q"
  by (simp add: agrees_def)

subsection \<open>The exact engine computes the recurrence\<close>

lemma classical_cell_step:
  assumes ag: "agrees (spec_cell w p) n c (Suc k) r (dp, tr)"
    and kn: "Suc k \<le> n" and rc: "r \<le> c"
    and run: "classical_cell w p (Suc k) r (dp, tr) = Inr s'"
  shows "s' = (upd2 dp (Suc k) r (fst (spec_cell w p (Suc k) r)),
               upd2 tr (Suc k) r (snd (spec_cell w p (Suc k) r)))"
proof -
  from ag have sh: "shape2 (Suc n) (Suc c) dp" "shape2 (Suc n) (Suc c) tr"
    by (auto simp: agrees_def)
  have kn': "Suc k < Suc n" and rc': "r < Suc c" using kn rc by auto
  have row: "\<And>q. q \<le> c \<Longrightarrow> dp ! k ! q = fst (spec_cell w p k q) \<and>
                               tr ! k ! q = snd (spec_cell w p k q)"
    using agrees_cell[OF ag, of k] by (metis fst_conv snd_conv lessI)
  have here: "dp ! k ! r = fst (spec_cell w p k r)" "tr ! k ! r = snd (spec_cell w p k r)"
    using row[OF rc] by auto
  show ?thesis
  proof (cases "w ! k \<le> r")
    case False
    with run show ?thesis
      by (simp add: classical_cell_def classical_include_def classical_exclude_def
          spec_cell_Suc here)
  next
    case True
    then have "r - w ! k \<le> c" using rc by simp
    from row[OF this]
    have prev: "dp ! k ! (r - w ! k) = fst (spec_cell w p k (r - w ! k))"
               "tr ! k ! (r - w ! k) = snd (spec_cell w p k (r - w ! k))" by auto
    from run True obtain self cand where
      self: "get_profit p k k = Inr self" and
      cand: "add_interactions p k (tr ! k ! (r - w ! k)) (dp ! k ! (r - w ! k) + self) = Inr cand"
      and res: "s' = (if cand > upd2 dp (Suc k) r (dp ! k ! r) ! Suc k ! r
                then (upd2 dp (Suc k) r cand,
                      upd2 tr (Suc k) r (insert k (tr ! k ! (r - w ! k))))
                else (upd2 dp (Suc k) r (dp ! k ! r), upd2 tr (Suc k) r (tr ! k ! r)))"
      by (auto simp: classical_cell_def classical_include_def classical_exclude_def Let_def
          bindE_eq_Inr upd2_other_row split: if_splits)
    have cv: "cand = fst (spec_cell w p k (r - w ! k)) + p ! k ! k
                + (\<Sum>j\<in>snd (spec_cell w p k (r - w ! k)). p ! k ! j)"
      using add_interactions_Inr[OF cand] get_profit_Inr[OF self] prev by simp
    show ?thesis
      unfolding res using True
      by (simp add: upd2_same[OF sh(1) kn' rc'] spec_cell_Suc here prev cv)
  qed
qed

lemma classical_cell_agrees:
  assumes "agrees (spec_cell w p) n c (Suc k) r s" "Suc k \<le> n" "r \<le> c"
    "classical_cell w p (Suc k) r s = Inr s'"
  shows "agrees (spec_cell w p) n c (Suc k) (Suc r) s'"
proof -
  obtain dp tr where s: "s = (dp, tr)" by (cases s)
  show ?thesis
    using classical_cell_step[OF assms(1)[unfolded s] assms(2,3) assms(4)[unfolded s]]
      agrees_upd2[OF assms(1)[unfolded s] assms(2,3), of "fst (spec_cell w p (Suc k) r)"
        "snd (spec_cell w p (Suc k) r)"]
    by simp
qed

lemma classical_cell_progress:
  assumes ag: "agrees (spec_cell w p) n c (Suc k) r s" and kn: "Suc k \<le> n" and rc: "r \<le> c"
    and cov: "covers n p"
  shows "\<exists>s'. classical_cell w p (Suc k) r s = Inr s'"
proof -
  obtain dp tr where s: "s = (dp, tr)" by (cases s)
  have kn': "k < n" using kn by simp
  have "r - w ! k \<le> c" using rc by simp
  from agrees_cell[OF ag[unfolded s] _ this, of k]
  have "tr ! k ! (r - w ! k) = snd (spec_cell w p k (r - w ! k))"
    by (metis snd_conv lessI)
  then have sub: "tr ! k ! (r - w ! k) \<subseteq> {0..<k}" using spec_cell_subset by simp
  show ?thesis
    unfolding s
    by (simp add: classical_cell_def classical_include_def classical_exclude_def Let_def
        upd2_other_row get_profit_covers[OF cov kn' kn']
        add_interactions_covers[OF cov kn' sub])
qed

subsection \<open>Maximum and first position of the maximum\<close>

lemma py_index_first:
  assumes "y \<in> set xs"
  shows "\<exists>i. py_index xs y = Inr i \<and> i < length xs \<and> xs ! i = y \<and> (\<forall>j<i. xs ! j \<noteq> y)"
proof -
  let ?i = "length (takeWhile (\<lambda>x. x \<noteq> y) xs)"
  have lt: "?i < length xs"
    using assms by (metis (mono_tags, lifting) length_takeWhile_le le_neq_implies_less
        takeWhile_eq_all_conv length_takeWhile_le takeWhile_eq_take take_all_iff)
  have at: "xs ! ?i = y" using nth_length_takeWhile[OF lt] by simp
  have before: "\<forall>j<?i. xs ! j \<noteq> y"
  proof (intro allI impI)
    fix j assume j: "j < ?i"
    then have "takeWhile (\<lambda>x. x \<noteq> y) xs ! j \<in> set (takeWhile (\<lambda>x. x \<noteq> y) xs)"
      by (rule nth_mem)
    then have "takeWhile (\<lambda>x. x \<noteq> y) xs ! j \<noteq> y" by (rule set_takeWhileD[THEN conjunct2])
    then show "xs ! j \<noteq> y" using takeWhile_nth[OF j] by simp
  qed
  show ?thesis using assms lt at before by (simp add: py_index_def)
qed

lemma py_max_first:
  assumes "xs \<noteq> []"
  shows "\<exists>i. py_max xs = Inr (Max (set xs)) \<and> py_index xs (Max (set xs)) = Inr i \<and> i < length xs
           \<and> xs ! i = Max (set xs) \<and> (\<forall>j<length xs. xs ! j \<le> xs ! i) \<and> (\<forall>j<i. xs ! j \<noteq> xs ! i)"
proof -
  have m: "Max (set xs) \<in> set xs" using assms by (simp add: Max_in)
  from py_index_first[OF m] obtain i where
    i: "py_index xs (Max (set xs)) = Inr i" "i < length xs" "xs ! i = Max (set xs)"
       "\<forall>j<i. xs ! j \<noteq> Max (set xs)" by blast
  have "\<forall>j<length xs. xs ! j \<le> Max (set xs)" by simp
  with i assms show ?thesis by (simp add: py_max_def)
qed

subsection \<open>The table of the exact engine\<close>

lemma classical_init_agrees: "agrees (spec_cell w p) n c (Suc 0) 0 (classical_init n c)"
  by (simp add: agrees_def classical_init_def shape2_def less_Suc_eq_le
      del: replicate_Suc replicate.simps)

lemma classical_row_agrees:
  assumes "agrees (spec_cell w p) n c (Suc k) 0 s" "Suc k \<le> n"
    "foldE (classical_cell w p (Suc k)) [0..<c + 1] s = Inr s'"
  shows "agrees (spec_cell w p) n c (Suc (Suc k)) 0 s'"
proof -
  have "agrees (spec_cell w p) n c (Suc k) (c + 1) s'"
    by (rule foldE_upt_invariant[where I = "agrees (spec_cell w p) n c (Suc k)", OF assms(3) _ assms(1)])
      (use assms(2) classical_cell_agrees in auto)
  then show ?thesis using agrees_next_row by simp
qed

lemma classical_row_progress:
  assumes "agrees (spec_cell w p) n c (Suc k) 0 s" "Suc k \<le> n" "covers n p"
  shows "\<exists>s'. foldE (classical_cell w p (Suc k)) [0..<c + 1] s = Inr s'"
  by (rule foldE_upt_total[where I = "agrees (spec_cell w p) n c (Suc k)", OF _ assms(1)])
    (use assms(2,3) classical_cell_agrees classical_cell_progress in auto)

lemma classical_fill_agrees:
  assumes "classical_fill w p c = Inr s"
  shows "agrees (spec_cell w p) (length w) c (Suc (length w)) 0 s"
proof -
  let ?n = "length w"
  have step: "\<And>k u u'. 1 \<le> k \<Longrightarrow> k < ?n + 1 \<Longrightarrow> agrees (spec_cell w p) ?n c k 0 u \<Longrightarrow>
      foldE (classical_cell w p k) [0..<c + 1] u = Inr u' \<Longrightarrow> agrees (spec_cell w p) ?n c (Suc k) 0 u'"
  proof -
    fix k u u'
    assume k: "1 \<le> k" "k < ?n + 1" and a: "agrees (spec_cell w p) ?n c k 0 u"
      and f: "foldE (classical_cell w p k) [0..<c + 1] u = Inr u'"
    from k obtain k' where k': "k = Suc k'" "Suc k' \<le> ?n" by (cases k) auto
    show "agrees (spec_cell w p) ?n c (Suc k) 0 u'"
      using classical_row_agrees[OF a[unfolded k'] k'(2) f[unfolded k']] k' by simp
  qed
  have "agrees (spec_cell w p) ?n c (?n + 1) 0 s"
    by (rule foldE_upt_invariant[where I = "\<lambda>k. agrees (spec_cell w p) ?n c k 0" and a = 1,
          OF assms[unfolded classical_fill_def]])
      (use classical_init_agrees step in auto)
  then show ?thesis by simp
qed

lemma classical_fill_total:
  assumes "covers (length w) p"
  shows "\<exists>s. classical_fill w p c = Inr s"
proof -
  let ?n = "length w"
  have step: "\<And>k u u'. 1 \<le> k \<Longrightarrow> k < ?n + 1 \<Longrightarrow> agrees (spec_cell w p) ?n c k 0 u \<Longrightarrow>
      foldE (classical_cell w p k) [0..<c + 1] u = Inr u' \<Longrightarrow> agrees (spec_cell w p) ?n c (Suc k) 0 u'"
  proof -
    fix k u u'
    assume k: "1 \<le> k" "k < ?n + 1" and a: "agrees (spec_cell w p) ?n c k 0 u"
      and f: "foldE (classical_cell w p k) [0..<c + 1] u = Inr u'"
    from k obtain k' where k': "k = Suc k'" "Suc k' \<le> ?n" by (cases k) auto
    show "agrees (spec_cell w p) ?n c (Suc k) 0 u'"
      using classical_row_agrees[OF a[unfolded k'] k'(2) f[unfolded k']] k' by simp
  qed
  have prog: "\<And>k u. 1 \<le> k \<Longrightarrow> k < ?n + 1 \<Longrightarrow> agrees (spec_cell w p) ?n c k 0 u \<Longrightarrow>
      \<exists>u'. foldE (classical_cell w p k) [0..<c + 1] u = Inr u'"
  proof -
    fix k u
    assume k: "1 \<le> k" "k < ?n + 1" and a: "agrees (spec_cell w p) ?n c k 0 u"
    from k obtain k' where k': "k = Suc k'" "Suc k' \<le> ?n" by (cases k) auto
    show "\<exists>u'. foldE (classical_cell w p k) [0..<c + 1] u = Inr u'"
      using classical_row_progress[OF a[unfolded k'] k'(2) assms] k' by simp
  qed
  show ?thesis
    unfolding classical_fill_def
    by (rule foldE_upt_total[where I = "\<lambda>k. agrees (spec_cell w p) ?n c k 0" and a = 1])
      (use classical_init_agrees step prog in auto)
qed

text \<open>What the exact engine returns, in terms of the recurrence.\<close>

lemma classical_of_fill:
  assumes "classical_fill w p c = Inr (dp, tr)"
  shows "\<exists>r\<le>c. classical_dp_qkp w p c =
            bindE (py_float (fst (spec_cell w p (length w) r)))
              (\<lambda>v. Inr (snd (spec_cell w p (length w) r), v))
          \<and> (\<forall>q\<le>c. fst (spec_cell w p (length w) q) \<le> fst (spec_cell w p (length w) r))
          \<and> (\<forall>q<r. fst (spec_cell w p (length w) q) \<noteq> fst (spec_cell w p (length w) r))"
proof -
  let ?n = "length w"
  from classical_fill_agrees[OF assms]
  have sh: "shape2 (Suc ?n) (Suc c) dp" "shape2 (Suc ?n) (Suc c) tr"
    and cells: "\<And>q. q \<le> c \<Longrightarrow> (dp ! ?n ! q, tr ! ?n ! q) = spec_cell w p ?n q"
    by (auto simp: agrees_def)
  have len: "length (dp ! ?n) = Suc c" using sh(1) by (simp add: shape2_def)
  then have ne: "dp ! ?n \<noteq> []" by auto
  from py_max_first[OF ne] obtain i where
    i: "py_max (dp ! ?n) = Inr (Max (set (dp ! ?n)))"
       "py_index (dp ! ?n) (Max (set (dp ! ?n))) = Inr i" "i < length (dp ! ?n)"
       "dp ! ?n ! i = Max (set (dp ! ?n))"
       "\<forall>j<length (dp ! ?n). dp ! ?n ! j \<le> dp ! ?n ! i" "\<forall>j<i. dp ! ?n ! j \<noteq> dp ! ?n ! i"
    by blast
  have ic: "i \<le> c" using i(3) len by simp
  have val: "\<And>q. q \<le> c \<Longrightarrow> dp ! ?n ! q = fst (spec_cell w p ?n q)"
    using cells by (metis fst_conv)
  have wit: "tr ! ?n ! i = snd (spec_cell w p ?n i)"
    using cells[OF ic] by (metis snd_conv)
  have res: "classical_dp_qkp w p c =
               bindE (py_float (fst (spec_cell w p ?n i))) (\<lambda>v. Inr (snd (spec_cell w p ?n i), v))"
    using assms i(1,2) i(4)[symmetric] wit val[OF ic]
    by (simp add: classical_dp_qkp_def Let_def)
  have le: "\<forall>q\<le>c. fst (spec_cell w p ?n q) \<le> fst (spec_cell w p ?n i)"
    using i(5) len val ic by (simp add: less_Suc_eq_le)
  have first: "\<forall>q<i. fst (spec_cell w p ?n q) \<noteq> fst (spec_cell w p ?n i)"
    using i(6) val ic by simp
  from ic res le first show ?thesis by blast
qed

lemma classical_returns:
  assumes "classical_dp_qkp w p c = Inr (S, v)"
  shows "\<exists>r\<le>c. S = snd (spec_cell w p (length w) r)
          \<and> py_float (fst (spec_cell w p (length w) r)) = Inr v
          \<and> (\<forall>q\<le>c. fst (spec_cell w p (length w) q) \<le> fst (spec_cell w p (length w) r))
          \<and> (\<forall>q<r. fst (spec_cell w p (length w) q) \<noteq> fst (spec_cell w p (length w) r))"
proof -
  from assms obtain dp tr where "classical_fill w p c = Inr (dp, tr)"
    by (auto simp: classical_dp_qkp_def Let_def bindE_eq_Inr)
  from classical_of_fill[OF this] obtain r where
    r: "r \<le> c"
       "classical_dp_qkp w p c =
          bindE (py_float (fst (spec_cell w p (length w) r)))
            (\<lambda>v. Inr (snd (spec_cell w p (length w) r), v))"
       "\<forall>q\<le>c. fst (spec_cell w p (length w) q) \<le> fst (spec_cell w p (length w) r)"
       "\<forall>q<r. fst (spec_cell w p (length w) q) \<noteq> fst (spec_cell w p (length w) r)"
    by blast
  from r(2) assms
  have "bindE (py_float (fst (spec_cell w p (length w) r)))
          (\<lambda>v. Inr (snd (spec_cell w p (length w) r), v)) = Inr (S, v)" by simp
  then have "S = snd (spec_cell w p (length w) r)"
    "py_float (fst (spec_cell w p (length w) r)) = Inr v"
    unfolding bindE_eq_Inr by auto
  with r(1,3,4) show ?thesis by blast
qed

lemma classical_outcome:
  assumes "covers (length w) p"
  shows "\<exists>r\<le>c. classical_dp_qkp w p c =
            bindE (py_float (fst (spec_cell w p (length w) r)))
              (\<lambda>v. Inr (snd (spec_cell w p (length w) r), v))
          \<and> (\<forall>q\<le>c. fst (spec_cell w p (length w) q) \<le> fst (spec_cell w p (length w) r))
          \<and> (\<forall>q<r. fst (spec_cell w p (length w) q) \<noteq> fst (spec_cell w p (length w) r))"
proof -
  from classical_fill_total[OF assms] obtain dp tr where "classical_fill w p c = Inr (dp, tr)"
    by (metis surj_pair)
  from classical_of_fill[OF this] show ?thesis .
qed

lemma spec_cell_exact:
  assumes "exact_range n p" "k \<le> n"
  shows "py_float (fst (spec_cell w p k r)) = Inr (fst (spec_cell w p k r))"
proof -
  have "snd (spec_cell w p k r) \<subseteq> {0..<n}" using spec_cell_subset[of w p k r] assms(2) by auto
  from engine_profit_bound[OF this, of p] assms(1)
  have "\<bar>fst (spec_cell w p k r)\<bar> < 2 ^ 53"
    by (simp add: spec_cell_profit exact_range_def)
  then show ?thesis by (rule py_float_exact)
qed

lemma classical_exact:
  assumes "covers (length w) p" "exact_range (length w) p"
  shows "\<exists>r\<le>c. classical_dp_qkp w p c =
            Inr (snd (spec_cell w p (length w) r), fst (spec_cell w p (length w) r))
          \<and> (\<forall>q\<le>c. fst (spec_cell w p (length w) q) \<le> fst (spec_cell w p (length w) r))
          \<and> (\<forall>q<r. fst (spec_cell w p (length w) q) \<noteq> fst (spec_cell w p (length w) r))"
  using classical_outcome[OF assms(1), of c] spec_cell_exact[OF assms(2) order_refl, of w]
  by simp

text \<open>
  C2 (amended). classical_dp_qkp fills its table with the recurrence \<open>spec_cell\<close>: when
  the fill returns, every cell \<open>(k, r)\<close> with \<open>k \<le> n\<close> and \<open>r \<le> capacity\<close> holds the profit
  and the witness of the recurrence (layer 0 is \<open>0\<close> with the empty witness; the include
  candidate replaces the exclude candidate only when strictly greater). The returned set
  is the witness at the smallest \<open>r\<close> attaining the maximum of layer \<open>n\<close>. The returned
  profit is not that maximum itself but \<^verbatim>\<open>float\<close> of it: the nearest double, and the
  engine raises OverflowError when the maximum is outside the range of a double. When the
  matrix has the \<open>n\<close> rows and columns, this is the only way in which the engine fails;
  when moreover its entries are in the exact range, the engine returns the maximum itself.
\<close>

theorem classical_implements_recurrence:
  "(\<forall>dp tr. classical_fill w p c = Inr (dp, tr) \<longrightarrow>
      (\<forall>k\<le>length w. \<forall>r\<le>c. (dp ! k ! r, tr ! k ! r) = spec_cell w p k r))
   \<and> (\<forall>S v. classical_dp_qkp w p c = Inr (S, v) \<longrightarrow>
        (\<exists>r\<le>c. S = snd (spec_cell w p (length w) r)
           \<and> py_float (fst (spec_cell w p (length w) r)) = Inr v
           \<and> (\<forall>q\<le>c. fst (spec_cell w p (length w) q) \<le> fst (spec_cell w p (length w) r))
           \<and> (\<forall>q<r. fst (spec_cell w p (length w) q) \<noteq> fst (spec_cell w p (length w) r))))
   \<and> (covers (length w) p \<longrightarrow>
        (\<exists>r\<le>c. classical_dp_qkp w p c =
                  bindE (py_float (fst (spec_cell w p (length w) r)))
                    (\<lambda>v. Inr (snd (spec_cell w p (length w) r), v))
           \<and> (\<forall>q\<le>c. fst (spec_cell w p (length w) q) \<le> fst (spec_cell w p (length w) r))
           \<and> (\<forall>q<r. fst (spec_cell w p (length w) q) \<noteq> fst (spec_cell w p (length w) r))))
   \<and> (covers (length w) p \<and> exact_range (length w) p \<longrightarrow>
        (\<exists>r\<le>c. classical_dp_qkp w p c =
                  Inr (snd (spec_cell w p (length w) r), fst (spec_cell w p (length w) r))
           \<and> (\<forall>q\<le>c. fst (spec_cell w p (length w) q) \<le> fst (spec_cell w p (length w) r))
           \<and> (\<forall>q<r. fst (spec_cell w p (length w) q) \<noteq> fst (spec_cell w p (length w) r))))"
proof (intro conjI allI impI)
  fix dp tr k r
  assume "classical_fill w p c = Inr (dp, tr)" "k \<le> length w" "r \<le> c"
  then show "(dp ! k ! r, tr ! k ! r) = spec_cell w p k r"
    using agrees_cell[OF classical_fill_agrees, of w p c dp tr k r] by simp
next
  fix S v
  assume "classical_dp_qkp w p c = Inr (S, v)"
  then show "\<exists>r\<le>c. S = snd (spec_cell w p (length w) r)
           \<and> py_float (fst (spec_cell w p (length w) r)) = Inr v
           \<and> (\<forall>q\<le>c. fst (spec_cell w p (length w) q) \<le> fst (spec_cell w p (length w) r))
           \<and> (\<forall>q<r. fst (spec_cell w p (length w) q) \<noteq> fst (spec_cell w p (length w) r))"
    by (rule classical_returns)
next
  assume "covers (length w) p"
  then show "\<exists>r\<le>c. classical_dp_qkp w p c =
                  bindE (py_float (fst (spec_cell w p (length w) r)))
                    (\<lambda>v. Inr (snd (spec_cell w p (length w) r), v))
           \<and> (\<forall>q\<le>c. fst (spec_cell w p (length w) q) \<le> fst (spec_cell w p (length w) r))
           \<and> (\<forall>q<r. fst (spec_cell w p (length w) q) \<noteq> fst (spec_cell w p (length w) r))"
    by (rule classical_outcome)
next
  assume "covers (length w) p \<and> exact_range (length w) p"
  then show "\<exists>r\<le>c. classical_dp_qkp w p c =
                  Inr (snd (spec_cell w p (length w) r), fst (spec_cell w p (length w) r))
           \<and> (\<forall>q\<le>c. fst (spec_cell w p (length w) q) \<le> fst (spec_cell w p (length w) r))
           \<and> (\<forall>q<r. fst (spec_cell w p (length w) q) \<noteq> fst (spec_cell w p (length w) r))"
    using classical_exact by blast
qed

theorem classical_implements_recurrence_witness:
  "covers (length [3, 4, 5 :: nat]) [[10, 2, 3], [2, 5, 4], [3, 4, 7]]
   \<and> exact_range (length [3, 4, 5 :: nat]) [[10, 2, 3], [2, 5, 4], [3, 4, 7]]
   \<and> classical_dp_qkp [3, 4, 5] [[10, 2, 3], [2, 5, 4], [3, 4, 7]] 7 = Inr ({0, 1}, 17)
   \<and> (\<exists>r\<le>7. ({0, 1}, 17) =
                (snd (spec_cell [3, 4, 5] [[10, 2, 3], [2, 5, 4], [3, 4, 7]] 3 r),
                 fst (spec_cell [3, 4, 5] [[10, 2, 3], [2, 5, 4], [3, 4, 7]] 3 r))
        \<and> (\<forall>q\<le>7. fst (spec_cell [3, 4, 5] [[10, 2, 3], [2, 5, 4], [3, 4, 7]] 3 q) \<le> 17)
        \<and> (\<forall>q<r. fst (spec_cell [3, 4, 5] [[10, 2, 3], [2, 5, 4], [3, 4, 7]] 3 q) \<noteq> 17))"
proof -
  have cov: "covers (length [3, 4, 5 :: nat]) [[10, 2, 3], [2, 5, 4], [3, 4, 7]]" by code_simp
  have ex: "exact_range (length [3, 4, 5 :: nat]) [[10, 2, 3], [2, 5, 4], [3, 4, 7]]" by code_simp
  have run: "classical_dp_qkp [3, 4, 5] [[10, 2, 3], [2, 5, 4], [3, 4, 7]] 7 = Inr ({0, 1}, 17)"
    by code_simp
  have len: "length [3, 4, 5 :: nat] = 3" by simp
  from classical_implements_recurrence[of "[3, 4, 5]" "[[10, 2, 3], [2, 5, 4], [3, 4, 7]]" 7] cov ex
  obtain r where r: "r \<le> 7"
    "classical_dp_qkp [3, 4, 5] [[10, 2, 3], [2, 5, 4], [3, 4, 7]] 7 =
       Inr (snd (spec_cell [3, 4, 5] [[10, 2, 3], [2, 5, 4], [3, 4, 7]] (length [3, 4, 5 :: nat]) r),
            fst (spec_cell [3, 4, 5] [[10, 2, 3], [2, 5, 4], [3, 4, 7]] (length [3, 4, 5 :: nat]) r))"
    "\<forall>q\<le>7. fst (spec_cell [3, 4, 5] [[10, 2, 3], [2, 5, 4], [3, 4, 7]] (length [3, 4, 5 :: nat]) q)
             \<le> fst (spec_cell [3, 4, 5] [[10, 2, 3], [2, 5, 4], [3, 4, 7]] (length [3, 4, 5 :: nat]) r)"
    "\<forall>q<r. fst (spec_cell [3, 4, 5] [[10, 2, 3], [2, 5, 4], [3, 4, 7]] (length [3, 4, 5 :: nat]) q)
             \<noteq> fst (spec_cell [3, 4, 5] [[10, 2, 3], [2, 5, 4], [3, 4, 7]] (length [3, 4, 5 :: nat]) r)"
    by blast
  from r(2) run have
    eq: "snd (spec_cell [3, 4, 5] [[10, 2, 3], [2, 5, 4], [3, 4, 7]] (length [3, 4, 5 :: nat]) r) = {0, 1}"
        "fst (spec_cell [3, 4, 5] [[10, 2, 3], [2, 5, 4], [3, 4, 7]] (length [3, 4, 5 :: nat]) r) = 17"
    by simp_all
  from r(1,3,4) eq have
    "\<exists>r\<le>7. ({0, 1}, 17) =
                (snd (spec_cell [3, 4, 5] [[10, 2, 3], [2, 5, 4], [3, 4, 7]] (length [3, 4, 5 :: nat]) r),
                 fst (spec_cell [3, 4, 5] [[10, 2, 3], [2, 5, 4], [3, 4, 7]] (length [3, 4, 5 :: nat]) r))
        \<and> (\<forall>q\<le>7. fst (spec_cell [3, 4, 5] [[10, 2, 3], [2, 5, 4], [3, 4, 7]] (length [3, 4, 5 :: nat]) q) \<le> 17)
        \<and> (\<forall>q<r. fst (spec_cell [3, 4, 5] [[10, 2, 3], [2, 5, 4], [3, 4, 7]] (length [3, 4, 5 :: nat]) q) \<noteq> 17)"
    by (metis (no_types, lifting))
  then show ?thesis using cov ex run unfolding len by blast
qed

text \<open>
  C2 as stated fails: the returned profit is not always the maximum of \<open>dp[n][\<cdot>]\<close>. With
  the single profit \<open>2^53 + 1\<close> the table holds \<open>2^53 + 1\<close> in \<open>dp[1][1]\<close> and the engine
  returns \<^verbatim>\<open>float\<close> of it, which is \<open>2^53\<close>.
\<close>

theorem classical_profit_rounded:
  "classical_dp_qkp [1] [[9007199254740993]] 1 = Inr ({0}, 9007199254740992)
   \<and> spec_cell [1] [[9007199254740993]] 1 0 = (0, {})
   \<and> spec_cell [1] [[9007199254740993]] 1 1 = (9007199254740993, {0})"
  by code_simp

subsection \<open>The include transition returns\<close>

lemma add_profit_covers:
  assumes "covers n p" "convertible n p" "i < n" "j < n"
  shows "add_profit p i j acc = Inr (fadd acc (to_double (p ! i ! j)))"
proof -
  have "py_float (p ! i ! j) = Inr (to_double (p ! i ! j))"
    using assms(2,3,4) by (simp add: convertible_def)
  then show ?thesis
    by (simp add: add_profit_def get_profit_covers[OF assms(1,3,4)])
qed

lemma foldE_add_profit_covers:
  assumes "covers n p" "convertible n p" "k < n" "set js \<subseteq> {0..<n}"
  shows "\<exists>v. foldE (add_profit p k) js acc = Inr v"
  using assms(4)
proof (induction js arbitrary: acc)
  case Nil
  show ?case by simp
next
  case (Cons j js)
  then have "j < n" by simp
  from add_profit_covers[OF assms(1,2,3) this] Cons show ?case by simp
qed

lemma candidate_profit_covers:
  assumes "covers n p" "convertible n p" "k < n" "set js \<subseteq> {0..<n}"
  shows "candidate_profit p k js pv = Inr (pure_candidate p k js pv)"
proof -
  from foldE_add_profit_covers[OF assms] add_profit_covers[OF assms(1,2,3,3)]
  obtain v where "candidate_profit p k js pv = Inr v"
    by (metis bindE_Inr candidate_profit_def)
  with candidate_profit_Inr[OF this] show ?thesis by simp
qed

lemma candidate_profit_enumerated:
  assumes "covers n p" "convertible n p" "enumerates order" "k < n" "S \<subseteq> {0..<k}"
  shows "candidate_profit p k (order k r S) pv = Inr (pure_candidate p k (order k r S) pv)"
proof -
  have "finite S" using assms(5) by (rule finite_below)
  with assms(3) have "set (order k r S) = S" by (simp add: enumerates_def)
  with assms(4,5) have "set (order k r S) \<subseteq> {0..<n}" by auto
  from candidate_profit_covers[OF assms(1,2,4) this] show ?thesis .
qed

subsection \<open>The table of heuristic engine A\<close>

lemma algo2_init_agrees: "agrees (hcell order w p) n c (Suc 0) 0 (algo2_init n c)"
proof -
  let ?dp = "replicate (n + 1) (replicate (c + 1) NegInf)"
  have sh: "shape2 (Suc n) (Suc c) ?dp"
    using shape2_replicate[of "Suc n" "Suc c" NegInf] by (simp del: replicate_Suc replicate.simps)
  have sh': "shape2 (Suc n) (Suc c) (replicate (n + 1) (replicate (c + 1) ({} :: nat set)))"
    using shape2_replicate[of "Suc n" "Suc c" "{} :: nat set"] by (simp del: replicate_Suc replicate.simps)
  have v: "\<And>q. q \<le> c \<Longrightarrow> upd2 ?dp 0 0 (Finite 0) ! 0 ! q = (if q = 0 then Finite 0 else NegInf)"
  proof -
    fix q assume "q \<le> c"
    show "upd2 ?dp 0 0 (Finite 0) ! 0 ! q = (if q = 0 then Finite 0 else NegInf)"
    proof (cases "q = 0")
      case True
      then show ?thesis using upd2_same[OF sh, of 0 0] by simp
    next
      case False
      then show ?thesis using \<open>q \<le> c\<close>
        by (simp add: upd2_other del: replicate_Suc replicate.simps)
    qed
  qed
  show ?thesis
    using sh sh' v
    by (simp add: agrees_def algo2_init_def less_Suc_eq_le del: replicate_Suc replicate.simps)
qed

lemma algo2_cell_step:
  assumes ag: "agrees (hcell order w p) n c (Suc k) r (dp, tr)"
    and kn: "Suc k \<le> n" and rc: "r \<le> c"
    and run: "algo2_cell order w p (Suc k) r (dp, tr) = Inr s'"
  shows "s' = (upd2 dp (Suc k) r (fst (hcell order w p (Suc k) r)),
               upd2 tr (Suc k) r (snd (hcell order w p (Suc k) r)))"
proof -
  from ag have sh: "shape2 (Suc n) (Suc c) dp" "shape2 (Suc n) (Suc c) tr"
    by (auto simp: agrees_def)
  have kn': "Suc k < Suc n" and rc': "r < Suc c" using kn rc by auto
  have row: "\<And>q. q \<le> c \<Longrightarrow> dp ! k ! q = fst (hcell order w p k q)
                               \<and> tr ! k ! q = snd (hcell order w p k q)"
    using agrees_cell[OF ag, of k] by (metis fst_conv snd_conv lessI)
  have here: "dp ! k ! r = fst (hcell order w p k r)" "tr ! k ! r = snd (hcell order w p k r)"
    using row[OF rc] by auto
  have "r - w ! k \<le> c" using rc by simp
  from row[OF this]
  have prev: "dp ! k ! (r - w ! k) = fst (hcell order w p k (r - w ! k))"
             "tr ! k ! (r - w ! k) = snd (hcell order w p k (r - w ! k))" by auto
  have excl: "hcell order w p k r = (dp ! k ! r, tr ! k ! r)" using here by simp
  show ?thesis
  proof (cases "w ! k \<le> r \<and> dp ! k ! (r - w ! k) \<noteq> NegInf")
    case False
    then have "hcell order w p (Suc k) r = hcell order w p k r"
      unfolding hcell_Suc using prev by auto
    with run False show ?thesis
      by (auto simp: algo2_cell_def algo2_include_def algo2_exclude_def Let_def
          upd2_other_row excl split: if_splits)
  next
    case True
    from run True obtain cand where
      cand: "candidate_profit p k (order k r (tr ! k ! (r - w ! k))) (dp ! k ! (r - w ! k)) = Inr cand"
      and res: "s' = (if cand > upd2 dp (Suc k) r (dp ! k ! r) ! Suc k ! r \<or>
                   (cand = upd2 dp (Suc k) r (dp ! k ! r) ! Suc k ! r \<and>
                    card (tr ! k ! (r - w ! k)) + 1
                      > card (upd2 tr (Suc k) r (tr ! k ! r) ! Suc k ! r))
                then (upd2 dp (Suc k) r cand,
                      upd2 tr (Suc k) r (insert k (tr ! k ! (r - w ! k))))
                else (upd2 dp (Suc k) r (dp ! k ! r), upd2 tr (Suc k) r (tr ! k ! r)))"
      by (auto simp: algo2_cell_def algo2_include_def algo2_exclude_def Let_def
          bindE_eq_Inr upd2_other_row split: if_splits)
    have cv: "cand = hcand order w p k r"
      using candidate_profit_Inr[OF cand] prev by (simp add: hcand_def)
    have pv: "fst (hcell order w p k (r - w ! k)) \<noteq> NegInf" using True prev by simp
    show ?thesis
      unfolding res hcell_Suc using True pv
      by (simp add: upd2_same[OF sh(1) kn' rc'] upd2_same[OF sh(2) kn' rc'] here prev cv)
  qed
qed

lemma algo2_cell_agrees:
  assumes "agrees (hcell order w p) n c (Suc k) r s" "Suc k \<le> n" "r \<le> c"
    "algo2_cell order w p (Suc k) r s = Inr s'"
  shows "agrees (hcell order w p) n c (Suc k) (Suc r) s'"
proof -
  obtain dp tr where s: "s = (dp, tr)" by (cases s)
  show ?thesis
    using algo2_cell_step[OF assms(1)[unfolded s] assms(2,3) assms(4)[unfolded s]]
      agrees_upd2[OF assms(1)[unfolded s] assms(2,3), of "fst (hcell order w p (Suc k) r)"
        "snd (hcell order w p (Suc k) r)"]
    by simp
qed

lemma algo2_cell_progress:
  assumes ag: "agrees (hcell order w p) n c (Suc k) r s" and kn: "Suc k \<le> n" and rc: "r \<le> c"
    and cov: "covers n p" "convertible n p" "enumerates order"
  shows "\<exists>s'. algo2_cell order w p (Suc k) r s = Inr s'"
proof -
  obtain dp tr where s: "s = (dp, tr)" by (cases s)
  have kn': "k < n" using kn by simp
  have "r - w ! k \<le> c" using rc by simp
  from agrees_cell[OF ag[unfolded s] _ this, of k]
  have "tr ! k ! (r - w ! k) = snd (hcell order w p k (r - w ! k))"
    by (metis snd_conv lessI)
  then have sub: "tr ! k ! (r - w ! k) \<subseteq> {0..<k}" using hcell_subset by simp
  show ?thesis
    unfolding s
    by (simp add: algo2_cell_def algo2_include_def algo2_exclude_def Let_def
        upd2_other_row candidate_profit_enumerated[OF cov kn' sub])
qed

text \<open>A cell that the item does not fit in needs no entry of the matrix.\<close>

lemma algo2_cell_heavy:
  assumes "r < w ! k"
  shows "\<exists>s'. algo2_cell order w p (Suc k) r s = Inr s'"
proof -
  obtain dp tr where s: "s = (dp, tr)" by (cases s)
  show ?thesis
    unfolding s using assms
    by (simp add: algo2_cell_def algo2_include_def algo2_exclude_def)
qed

subsection \<open>Two nested loops over a table\<close>

lemma fill2_agrees:
  assumes run: "foldE (\<lambda>k. foldE (f k) [0..<c + 1]) [1..<n + 1] s0 = Inr s"
    and init: "agrees cell n c (Suc 0) 0 s0"
    and step: "\<And>k r u u'. Suc k \<le> n \<Longrightarrow> r \<le> c \<Longrightarrow> agrees cell n c (Suc k) r u \<Longrightarrow>
                 f (Suc k) r u = Inr u' \<Longrightarrow> agrees cell n c (Suc k) (Suc r) u'"
  shows "agrees cell n c (Suc n) 0 s"
proof -
  have row: "\<And>k u u'. 1 \<le> k \<Longrightarrow> k < n + 1 \<Longrightarrow> agrees cell n c k 0 u \<Longrightarrow>
      foldE (f k) [0..<c + 1] u = Inr u' \<Longrightarrow> agrees cell n c (Suc k) 0 u'"
  proof -
    fix k u u'
    assume k: "1 \<le> k" "k < n + 1" and a: "agrees cell n c k 0 u"
      and r: "foldE (f k) [0..<c + 1] u = Inr u'"
    from k obtain k' where k': "k = Suc k'" "Suc k' \<le> n" by (cases k) auto
    have "agrees cell n c (Suc k') (c + 1) u'"
      by (rule foldE_upt_invariant[where I = "agrees cell n c (Suc k')",
            OF r[unfolded k'] _ a[unfolded k']])
        (use k'(2) step in auto)
    then show "agrees cell n c (Suc k) 0 u'" using agrees_next_row k' by simp
  qed
  have "agrees cell n c (n + 1) 0 s"
    by (rule foldE_upt_invariant[where I = "\<lambda>k. agrees cell n c k 0" and a = 1, OF run])
      (use init row in auto)
  then show ?thesis by simp
qed

lemma fill2_total:
  assumes init: "agrees cell n c (Suc 0) 0 s0"
    and step: "\<And>k r u u'. Suc k \<le> n \<Longrightarrow> r \<le> c \<Longrightarrow> agrees cell n c (Suc k) r u \<Longrightarrow>
                 f (Suc k) r u = Inr u' \<Longrightarrow> agrees cell n c (Suc k) (Suc r) u'"
    and prog: "\<And>k r u. Suc k \<le> n \<Longrightarrow> r \<le> c \<Longrightarrow> agrees cell n c (Suc k) r u \<Longrightarrow>
                 \<exists>u'. f (Suc k) r u = Inr u'"
  shows "\<exists>s. foldE (\<lambda>k. foldE (f k) [0..<c + 1]) [1..<n + 1] s0 = Inr s"
proof -
  have row: "\<And>k u u'. 1 \<le> k \<Longrightarrow> k < n + 1 \<Longrightarrow> agrees cell n c k 0 u \<Longrightarrow>
      foldE (f k) [0..<c + 1] u = Inr u' \<Longrightarrow> agrees cell n c (Suc k) 0 u'"
  proof -
    fix k u u'
    assume k: "1 \<le> k" "k < n + 1" and a: "agrees cell n c k 0 u"
      and r: "foldE (f k) [0..<c + 1] u = Inr u'"
    from k obtain k' where k': "k = Suc k'" "Suc k' \<le> n" by (cases k) auto
    have "agrees cell n c (Suc k') (c + 1) u'"
      by (rule foldE_upt_invariant[where I = "agrees cell n c (Suc k')",
            OF r[unfolded k'] _ a[unfolded k']])
        (use k'(2) step in auto)
    then show "agrees cell n c (Suc k) 0 u'" using agrees_next_row k' by simp
  qed
  have rowp: "\<And>k u. 1 \<le> k \<Longrightarrow> k < n + 1 \<Longrightarrow> agrees cell n c k 0 u \<Longrightarrow>
      \<exists>u'. foldE (f k) [0..<c + 1] u = Inr u'"
  proof -
    fix k u
    assume k: "1 \<le> k" "k < n + 1" and a: "agrees cell n c k 0 u"
    from k obtain k' where k': "k = Suc k'" "Suc k' \<le> n" by (cases k) auto
    have "\<exists>u'. foldE (f (Suc k')) [0..<c + 1] u = Inr u'"
      by (rule foldE_upt_total[where I = "agrees cell n c (Suc k')", OF _ a[unfolded k']])
        (use k'(2) step prog in auto)
    then show "\<exists>u'. foldE (f k) [0..<c + 1] u = Inr u'" using k' by simp
  qed
  show ?thesis
    by (rule foldE_upt_total[where I = "\<lambda>k. agrees cell n c k 0" and a = 1])
      (use init row rowp in auto)
qed

text \<open>The last row of a completed table: its maximum and the first cell attaining it.\<close>

lemma last_row_argmax:
  fixes dp :: "'v::linorder list list"
  assumes "agrees cell n c (Suc n) 0 (dp, tr)"
  shows "\<exists>r\<le>c. py_max (dp ! n) = Inr (fst (cell n r)) \<and> py_index (dp ! n) (fst (cell n r)) = Inr r
          \<and> dp ! n ! r = fst (cell n r) \<and> tr ! n ! r = snd (cell n r)
          \<and> (\<forall>q\<le>c. fst (cell n q) \<le> fst (cell n r))
          \<and> (\<forall>q<r. fst (cell n q) \<noteq> fst (cell n r))"
proof -
  from assms
  have sh: "shape2 (Suc n) (Suc c) dp"
    and cells: "\<And>q. q \<le> c \<Longrightarrow> (dp ! n ! q, tr ! n ! q) = cell n q"
    by (auto simp: agrees_def)
  have len: "length (dp ! n) = Suc c" using sh by (simp add: shape2_def)
  then have ne: "dp ! n \<noteq> []" by auto
  from py_max_first[OF ne] obtain i where
    i: "py_max (dp ! n) = Inr (Max (set (dp ! n)))"
       "py_index (dp ! n) (Max (set (dp ! n))) = Inr i" "i < length (dp ! n)"
       "dp ! n ! i = Max (set (dp ! n))"
       "\<forall>j<length (dp ! n). dp ! n ! j \<le> dp ! n ! i" "\<forall>j<i. dp ! n ! j \<noteq> dp ! n ! i"
    by blast
  have ic: "i \<le> c" using i(3) len by simp
  have val: "\<And>q. q \<le> c \<Longrightarrow> dp ! n ! q = fst (cell n q)"
    using cells by (metis fst_conv)
  have wit: "tr ! n ! i = snd (cell n i)"
    using cells[OF ic] by (metis snd_conv)
  have m: "Max (set (dp ! n)) = fst (cell n i)" using i(4) val[OF ic] by simp
  have le: "\<forall>q\<le>c. fst (cell n q) \<le> fst (cell n i)"
    using i(5) len val ic by (simp add: less_Suc_eq_le)
  have first: "\<forall>q<i. fst (cell n q) \<noteq> fst (cell n i)"
    using i(6) val ic by simp
  from ic i(1,2) m val[OF ic] wit le first show ?thesis by auto
qed

subsection \<open>What heuristic engine A returns\<close>

lemma algo2_fill_agrees:
  assumes "algo2_fill order w p c = Inr s"
  shows "agrees (hcell order w p) (length w) c (Suc (length w)) 0 s"
  by (rule fill2_agrees[OF assms[unfolded algo2_fill_def] algo2_init_agrees])
    (rule algo2_cell_agrees)

lemma algo2_fill_total:
  assumes "covers (length w) p" "convertible (length w) p" "enumerates order"
  shows "\<exists>s. algo2_fill order w p c = Inr s"
  unfolding algo2_fill_def
  by (rule fill2_total[OF algo2_init_agrees])
    (use algo2_cell_agrees algo2_cell_progress[OF _ _ _ assms] in blast)+

lemma algo2_of_fill:
  assumes "algo2_fill order w p c = Inr (dp, tr)"
  shows "\<exists>r\<le>c. dp_heuristic_algo2 order w p c =
            Inr (snd (hcell order w p (length w) r), fst (hcell order w p (length w) r))
          \<and> (\<forall>q\<le>c. fst (hcell order w p (length w) q) \<le> fst (hcell order w p (length w) r))
          \<and> (\<forall>q<r. fst (hcell order w p (length w) q) \<noteq> fst (hcell order w p (length w) r))"
proof -
  from last_row_argmax[OF algo2_fill_agrees[OF assms]] obtain r where
    r: "r \<le> c" "py_max (dp ! length w) = Inr (fst (hcell order w p (length w) r))"
       "py_index (dp ! length w) (fst (hcell order w p (length w) r)) = Inr r"
       "dp ! length w ! r = fst (hcell order w p (length w) r)"
       "tr ! length w ! r = snd (hcell order w p (length w) r)"
       "\<forall>q\<le>c. fst (hcell order w p (length w) q) \<le> fst (hcell order w p (length w) r)"
       "\<forall>q<r. fst (hcell order w p (length w) q) \<noteq> fst (hcell order w p (length w) r)"
    by blast
  have "dp_heuristic_algo2 order w p c =
          Inr (snd (hcell order w p (length w) r), fst (hcell order w p (length w) r))"
    using assms r(2,3,4,5) by (simp add: dp_heuristic_algo2_def Let_def np_argmax_def)
  with r(1,6,7) show ?thesis by blast
qed

lemma algo2_returns:
  assumes "dp_heuristic_algo2 order w p c = Inr (S, v)"
  shows "\<exists>r\<le>c. (v, S) = hcell order w p (length w) r
          \<and> (\<forall>q\<le>c. fst (hcell order w p (length w) q) \<le> v)
          \<and> (\<forall>q<r. fst (hcell order w p (length w) q) \<noteq> v)"
proof -
  from assms obtain dp tr where "algo2_fill order w p c = Inr (dp, tr)"
    by (auto simp: dp_heuristic_algo2_def Let_def bindE_eq_Inr)
  from algo2_of_fill[OF this] assms show ?thesis by (metis Inr_inject prod.collapse prod.inject)
qed

lemma algo2_total:
  assumes "covers (length w) p" "convertible (length w) p" "enumerates order"
  shows "\<exists>S v. dp_heuristic_algo2 order w p c = Inr (S, v)"
proof -
  from algo2_fill_total[OF assms] obtain dp tr where "algo2_fill order w p c = Inr (dp, tr)"
    by (metis surj_pair)
  from algo2_of_fill[OF this] show ?thesis by blast
qed

subsection \<open>The rolling array of heuristic engine B\<close>

lemma algo3_init_agrees: "rolling_agrees (hcell order w p) c 0 (Suc c) (algo3_init c)"
proof -
  have "\<And>q. q \<le> c \<Longrightarrow>
          (replicate (c + 1) NegInf)[0 := Finite 0] ! q = (if q = 0 then Finite 0 else NegInf)"
    by (simp add: nth_list_update del: replicate_Suc replicate.simps)
  then show ?thesis
    by (simp add: rolling_agrees_def algo3_init_def del: replicate_Suc replicate.simps)
qed

lemma rolling_agrees_cell:
  "rolling_agrees cell c k b (dp, inc) \<Longrightarrow> q \<le> c \<Longrightarrow> q < b \<Longrightarrow> (dp ! q, inc ! q) = cell k q"
  by (simp add: rolling_agrees_def)

lemma rolling_agrees_update:
  assumes "rolling_agrees cell c k (Suc r) (dp, inc)" "r \<le> c" "(v, S) = cell (Suc k) r"
  shows "rolling_agrees cell c k r (dp[r := v], inc[r := S])"
proof -
  from assms(1) have len: "length dp = Suc c" "length inc = Suc c"
    and cells: "\<And>q. q \<le> c \<Longrightarrow>
      (dp ! q, inc ! q) = (if Suc r \<le> q then cell (Suc k) q else cell k q)"
    by (auto simp: rolling_agrees_def)
  have "\<And>q. q \<le> c \<Longrightarrow>
      (dp[r := v] ! q, inc[r := S] ! q) = (if r \<le> q then cell (Suc k) q else cell k q)"
  proof -
    fix q assume q: "q \<le> c"
    show "(dp[r := v] ! q, inc[r := S] ! q) = (if r \<le> q then cell (Suc k) q else cell k q)"
    proof (cases "q = r")
      case True
      then show ?thesis using len assms(2,3) by simp
    next
      case False
      then show ?thesis using cells[OF q] by auto
    qed
  qed
  then show ?thesis using len by (simp add: rolling_agrees_def)
qed

lemma algo3_cell_step:
  assumes ag: "rolling_agrees (hcell order w p) c k (Suc r) (dp, inc)"
    and wr: "w ! k \<le> r" and rc: "r \<le> c"
    and run: "algo3_cell order w p k r (dp, inc) = Inr s'"
  shows "s' = (dp[r := fst (hcell order w p (Suc k) r)], inc[r := snd (hcell order w p (Suc k) r)])"
proof -
  have here: "dp ! r = fst (hcell order w p k r)" "inc ! r = snd (hcell order w p k r)"
    using rolling_agrees_cell[OF ag rc] by (metis fst_conv lessI, metis snd_conv lessI)
  have "r - w ! k \<le> c" "r - w ! k < Suc r" using rc by auto
  from rolling_agrees_cell[OF ag this]
  have prev: "dp ! (r - w ! k) = fst (hcell order w p k (r - w ! k))"
             "inc ! (r - w ! k) = snd (hcell order w p k (r - w ! k))"
    by (metis fst_conv, metis snd_conv)
  have keep: "(dp[r := fst (hcell order w p k r)], inc[r := snd (hcell order w p k r)]) = (dp, inc)"
    using here by (metis list_update_id)
  show ?thesis
  proof (cases "dp ! (r - w ! k) \<noteq> NegInf")
    case False
    then have "hcell order w p (Suc k) r = hcell order w p k r"
      unfolding hcell_Suc using prev by simp
    with run False keep show ?thesis
      by (simp add: algo3_cell_def Let_def)
  next
    case True
    from run True obtain cand where
      cand: "candidate_profit p k (order k r (inc ! (r - w ! k))) (dp ! (r - w ! k)) = Inr cand"
      and res: "s' = (if cand > dp ! r \<or>
                   (cand = dp ! r \<and> card (inc ! (r - w ! k)) + 1 > card (inc ! r))
                then (dp[r := cand], inc[r := insert k (inc ! (r - w ! k))])
                else (dp, inc))"
      by (auto simp: algo3_cell_def Let_def bindE_eq_Inr split: if_splits)
    have cv: "cand = hcand order w p k r"
      using candidate_profit_Inr[OF cand] prev by (simp add: hcand_def)
    have pv: "fst (hcell order w p k (r - w ! k)) \<noteq> NegInf" using True prev by simp
    show ?thesis
      unfolding res hcell_Suc using wr keep pv
      by (simp add: here prev cv)
  qed
qed

lemma algo3_cell_agrees:
  assumes "rolling_agrees (hcell order w p) c k (Suc r) s" "w ! k \<le> r" "r < Suc c"
    "algo3_cell order w p k r s = Inr s'"
  shows "rolling_agrees (hcell order w p) c k r s'"
proof -
  obtain dp inc where s: "s = (dp, inc)" by (cases s)
  have rc: "r \<le> c" using assms(3) by simp
  show ?thesis
    using algo3_cell_step[OF assms(1)[unfolded s] assms(2) rc assms(4)[unfolded s]]
      rolling_agrees_update[OF assms(1)[unfolded s] rc, of "fst (hcell order w p (Suc k) r)"
        "snd (hcell order w p (Suc k) r)"]
    by simp
qed

lemma algo3_cell_progress:
  assumes ag: "rolling_agrees (hcell order w p) c k (Suc r) s" and rc: "r < Suc c"
    and kn: "k < n" and cov: "covers n p" "convertible n p" "enumerates order"
  shows "\<exists>s'. algo3_cell order w p k r s = Inr s'"
proof -
  obtain dp inc where s: "s = (dp, inc)" by (cases s)
  have "r - w ! k \<le> c" "r - w ! k < Suc r" using rc by auto
  from rolling_agrees_cell[OF ag[unfolded s] this]
  have "inc ! (r - w ! k) = snd (hcell order w p k (r - w ! k))" by (metis snd_conv)
  then have sub: "inc ! (r - w ! k) \<subseteq> {0..<k}" using hcell_subset by simp
  show ?thesis
    unfolding s
    by (simp add: algo3_cell_def Let_def candidate_profit_enumerated[OF cov kn sub])
qed

lemma rolling_agrees_next_pass:
  assumes "rolling_agrees (hcell order w p) c k b s" "b \<le> w ! k \<or> (b = Suc c \<and> c < w ! k)"
  shows "rolling_agrees (hcell order w p) c (Suc k) (Suc c) s"
proof -
  obtain dp inc where s: "s = (dp, inc)" by (cases s)
  from assms(1) have len: "length dp = Suc c" "length inc = Suc c"
    and cells: "\<And>q. q \<le> c \<Longrightarrow>
      (dp ! q, inc ! q) = (if b \<le> q then hcell order w p (Suc k) q else hcell order w p k q)"
    by (auto simp: rolling_agrees_def s)
  have "\<And>q. q \<le> c \<Longrightarrow> (dp ! q, inc ! q) = hcell order w p (Suc k) q"
  proof -
    fix q assume q: "q \<le> c"
    show "(dp ! q, inc ! q) = hcell order w p (Suc k) q"
    proof (cases "b \<le> q")
      case True
      then show ?thesis using cells[OF q] by simp
    next
      case False
      with assms(2) q have "q < w ! k" by auto
      from hcell_too_heavy[OF this] False show ?thesis using cells[OF q] by simp
    qed
  qed
  then show ?thesis using len by (simp add: rolling_agrees_def s)
qed

lemma algo3_pass_agrees:
  assumes "rolling_agrees (hcell order w p) c k (Suc c) s" "algo3_pass order w p c k s = Inr s'"
  shows "rolling_agrees (hcell order w p) c (Suc k) (Suc c) s'"
proof (cases "w ! k \<le> Suc c")
  case True
  have "rolling_agrees (hcell order w p) c k (w ! k) s'"
    by (rule foldE_rev_upt_invariant[where I = "rolling_agrees (hcell order w p) c k" and b = "Suc c",
          OF _ True assms(1)])
      (use assms(2) algo3_cell_agrees in \<open>auto simp: algo3_pass_def\<close>)
  then show ?thesis by (rule rolling_agrees_next_pass) simp
next
  case False
  then have "s' = s" using assms(2) by (simp add: algo3_pass_def)
  with assms(1) False show ?thesis by (auto intro: rolling_agrees_next_pass)
qed

lemma algo3_pass_progress:
  assumes "rolling_agrees (hcell order w p) c k (Suc c) s" "k < n"
    "covers n p" "convertible n p" "enumerates order"
  shows "\<exists>s'. algo3_pass order w p c k s = Inr s'"
proof (cases "w ! k \<le> Suc c")
  case True
  have "\<exists>s'. foldE (algo3_cell order w p k) (rev [w ! k..<Suc c]) s = Inr s'"
    by (rule foldE_rev_upt_total[where I = "rolling_agrees (hcell order w p) c k", OF True assms(1)])
      (use algo3_cell_agrees algo3_cell_progress[OF _ _ assms(2,3,4,5)] in blast)+
  then show ?thesis by (simp add: algo3_pass_def)
next
  case False
  then show ?thesis by (simp add: algo3_pass_def)
qed

lemma algo3_prefix_agrees:
  assumes "foldE (algo3_pass order w p c) [0..<k] (algo3_init c) = Inr s"
  shows "rolling_agrees (hcell order w p) c k (Suc c) s"
  by (rule foldE_upt_invariant[where I = "\<lambda>k. rolling_agrees (hcell order w p) c k (Suc c)", OF assms])
    (use algo3_init_agrees algo3_pass_agrees in auto)

lemma algo3_fill_agrees:
  "algo3_fill order w p c = Inr s \<Longrightarrow> rolling_agrees (hcell order w p) c (length w) (Suc c) s"
  unfolding algo3_fill_def by (rule algo3_prefix_agrees)

lemma algo3_fill_total:
  assumes "covers (length w) p" "convertible (length w) p" "enumerates order"
  shows "\<exists>s. algo3_fill order w p c = Inr s"
  unfolding algo3_fill_def
  by (rule foldE_upt_total[where I = "\<lambda>k. rolling_agrees (hcell order w p) c k (Suc c)"])
    (use algo3_init_agrees algo3_pass_agrees algo3_pass_progress[OF _ _ assms] in auto)

subsection \<open>What heuristic engine B returns\<close>

lemma rolling_argmax:
  fixes dp :: "'v::linorder list"
  assumes "rolling_agrees cell c n (Suc c) (dp, inc)"
  shows "\<exists>r\<le>c. py_max dp = Inr (fst (cell n r)) \<and> py_index dp (fst (cell n r)) = Inr r
          \<and> inc ! r = snd (cell n r)
          \<and> (\<forall>q\<le>c. fst (cell n q) \<le> fst (cell n r))
          \<and> (\<forall>q<r. fst (cell n q) \<noteq> fst (cell n r))"
proof -
  from assms have len: "length dp = Suc c"
    and cells: "\<And>q. q \<le> c \<Longrightarrow> (dp ! q, inc ! q) = cell n q"
    by (auto simp: rolling_agrees_def)
  have ne: "dp \<noteq> []" using len by auto
  from py_max_first[OF ne] obtain i where
    i: "py_max dp = Inr (Max (set dp))" "py_index dp (Max (set dp)) = Inr i" "i < length dp"
       "dp ! i = Max (set dp)" "\<forall>j<length dp. dp ! j \<le> dp ! i" "\<forall>j<i. dp ! j \<noteq> dp ! i"
    by blast
  have ic: "i \<le> c" using i(3) len by simp
  have val: "\<And>q. q \<le> c \<Longrightarrow> dp ! q = fst (cell n q)"
    using cells by (metis fst_conv)
  have wit: "inc ! i = snd (cell n i)"
    using cells[OF ic] by (metis snd_conv)
  have m: "Max (set dp) = fst (cell n i)" using i(4) val[OF ic] by simp
  have le: "\<forall>q\<le>c. fst (cell n q) \<le> fst (cell n i)"
    using i(5) len val ic by (simp add: less_Suc_eq_le)
  have first: "\<forall>q<i. fst (cell n q) \<noteq> fst (cell n i)"
    using i(6) val ic by simp
  from ic i(1,2) m wit le first show ?thesis by auto
qed

lemma algo3_of_fill:
  assumes "algo3_fill order w p c = Inr (dp, inc)"
  shows "\<exists>r\<le>c. dp_heuristic_algo3 order w p c =
            Inr (snd (hcell order w p (length w) r), fst (hcell order w p (length w) r))
          \<and> (\<forall>q\<le>c. fst (hcell order w p (length w) q) \<le> fst (hcell order w p (length w) r))
          \<and> (\<forall>q<r. fst (hcell order w p (length w) q) \<noteq> fst (hcell order w p (length w) r))"
proof -
  from rolling_argmax[OF algo3_fill_agrees[OF assms]] obtain r where
    r: "r \<le> c" "py_max dp = Inr (fst (hcell order w p (length w) r))"
       "py_index dp (fst (hcell order w p (length w) r)) = Inr r"
       "inc ! r = snd (hcell order w p (length w) r)"
       "\<forall>q\<le>c. fst (hcell order w p (length w) q) \<le> fst (hcell order w p (length w) r)"
       "\<forall>q<r. fst (hcell order w p (length w) q) \<noteq> fst (hcell order w p (length w) r)"
    by blast
  have "dp_heuristic_algo3 order w p c =
          Inr (snd (hcell order w p (length w) r), fst (hcell order w p (length w) r))"
    using assms r(2,3,4) by (simp add: dp_heuristic_algo3_def np_argmax_def)
  with r(1,5,6) show ?thesis by blast
qed

lemma algo3_returns:
  assumes "dp_heuristic_algo3 order w p c = Inr (S, v)"
  shows "\<exists>r\<le>c. (v, S) = hcell order w p (length w) r
          \<and> (\<forall>q\<le>c. fst (hcell order w p (length w) q) \<le> v)
          \<and> (\<forall>q<r. fst (hcell order w p (length w) q) \<noteq> v)"
proof -
  from assms obtain dp inc where "algo3_fill order w p c = Inr (dp, inc)"
    by (auto simp: dp_heuristic_algo3_def bindE_eq_Inr)
  from algo3_of_fill[OF this] assms show ?thesis by (metis Inr_inject prod.collapse prod.inject)
qed

lemma algo3_total:
  assumes "covers (length w) p" "convertible (length w) p" "enumerates order"
  shows "\<exists>S v. dp_heuristic_algo3 order w p c = Inr (S, v)"
proof -
  from algo3_fill_total[OF assms] obtain dp inc where "algo3_fill order w p c = Inr (dp, inc)"
    by (metis surj_pair)
  from algo3_of_fill[OF this] show ?thesis by blast
qed

subsection \<open>Consequences for the returned pair\<close>

lemma classical_sound:
  assumes "classical_dp_qkp w p c = Inr (S, v)"
  shows "S \<subseteq> {0..<length w} \<and> py_float (engine_profit p S) = Inr v \<and> weight_of w S \<le> c \<and> 0 \<le> v"
proof -
  from classical_returns[OF assms] obtain r where
    r: "r \<le> c" "S = snd (spec_cell w p (length w) r)"
       "py_float (fst (spec_cell w p (length w) r)) = Inr v" by blast
  have "0 \<le> v" using py_float_nonneg[OF r(3)] spec_cell_nonneg[of w p "length w" r] by simp
  then show ?thesis
    using spec_cell_subset[of w p "length w" r] spec_cell_profit[of w p "length w" r]
      spec_cell_weight[of w p "length w" r] r
    by auto
qed

lemma hcell_max_feasible:
  assumes "\<forall>q\<le>c. fst (hcell order w p n q) \<le> v"
  shows "Finite 0 \<le> v"
  using assms hcell_zero[of order w p n] by (meson le0 order_trans)

lemma heuristic_sound:
  assumes "r \<le> c" "(v, S) = hcell order w p n r" "\<forall>q\<le>c. fst (hcell order w p n q) \<le> v"
  shows "Finite 0 \<le> v \<and> S \<subseteq> {0..<n} \<and> weight_of w S \<le> c"
proof -
  have S: "S = snd (hcell order w p n r)" using assms(2) by (metis snd_conv)
  show ?thesis
    using hcell_max_feasible[OF assms(3)] hcell_subset[of order w p n r]
      hcell_weight_le[of w order p n r] assms(1)
    unfolding S by auto
qed

lemma heuristic_exact:
  assumes "r \<le> c" "(v, S) = hcell order w p n r" "\<forall>q\<le>c. fst (hcell order w p n q) \<le> v"
    and "exact_range n p" "enumerates order"
  shows "v = Finite (engine_profit p S) \<and> 0 \<le> engine_profit p S"
proof -
  have v: "v = fst (hcell order w p n r)" and S: "S = snd (hcell order w p n r)"
    using assms(2) by (metis fst_conv, metis snd_conv)
  have "Finite 0 \<le> v" by (rule hcell_max_feasible[OF assms(3)])
  moreover from this have "v \<noteq> NegInf" by auto
  ultimately show ?thesis
    using hcell_profit[OF assms(4,5) order_refl, of w r] unfolding v S by auto
qed

lemma algo2_sound:
  assumes "dp_heuristic_algo2 order w p c = Inr (S, v)"
  shows "Finite 0 \<le> v \<and> S \<subseteq> {0..<length w} \<and> weight_of w S \<le> c"
  using algo2_returns[OF assms] heuristic_sound by blast

lemma algo3_sound:
  assumes "dp_heuristic_algo3 order w p c = Inr (S, v)"
  shows "Finite 0 \<le> v \<and> S \<subseteq> {0..<length w} \<and> weight_of w S \<le> c"
  using algo3_returns[OF assms] heuristic_sound by blast

lemma algo2_exact:
  assumes "dp_heuristic_algo2 order w p c = Inr (S, v)" "exact_range (length w) p" "enumerates order"
  shows "v = Finite (engine_profit p S) \<and> 0 \<le> engine_profit p S"
  using algo2_returns[OF assms(1)] heuristic_exact[OF _ _ _ assms(2,3)] by blast

lemma algo3_exact:
  assumes "dp_heuristic_algo3 order w p c = Inr (S, v)" "exact_range (length w) p" "enumerates order"
  shows "v = Finite (engine_profit p S) \<and> 0 \<le> engine_profit p S"
  using algo3_returns[OF assms(1)] heuristic_exact[OF _ _ _ assms(2,3)] by blast

subsection \<open>Cells of the completed tables\<close>

lemma enumerates_ascending: "enumerates ascending"
  by (simp add: enumerates_def ascending_def)

lemma classical_table:
  assumes "classical_fill w p c = Inr (dp, tr)" "k \<le> length w" "r \<le> c"
  shows "dp ! k ! r = fst (spec_cell w p k r)" "tr ! k ! r = snd (spec_cell w p k r)"
  using agrees_cell[OF classical_fill_agrees[OF assms(1)], of k r] assms(2,3)
  by (metis fst_conv le_imp_less_Suc, metis snd_conv le_imp_less_Suc)

lemma algo2_table:
  assumes "algo2_fill order w p c = Inr (dp, sel)" "k \<le> length w" "r \<le> c"
  shows "dp ! k ! r = fst (hcell order w p k r)" "sel ! k ! r = snd (hcell order w p k r)"
  using agrees_cell[OF algo2_fill_agrees[OF assms(1)], of k r] assms(2,3)
  by (metis fst_conv le_imp_less_Suc, metis snd_conv le_imp_less_Suc)

lemma algo3_array:
  assumes "foldE (algo3_pass order w p c) [0..<k] (algo3_init c) = Inr (dp, inc)" "r \<le> c"
  shows "dp ! r = fst (hcell order w p k r)" "inc ! r = snd (hcell order w p k r)"
  using rolling_agrees_cell[OF algo3_prefix_agrees[OF assms(1)], of r] assms(2)
  by (metis fst_conv le_imp_less_Suc, metis snd_conv le_imp_less_Suc)

lemma algo3_final_array:
  assumes "algo3_fill order w p c = Inr (dp, inc)" "r \<le> c"
  shows "dp ! r = fst (hcell order w p (length w) r)" "inc ! r = snd (hcell order w p (length w) r)"
  using algo3_array[OF assms(1)[unfolded algo3_fill_def] assms(2)] by auto

section \<open>The claims\<close>

text \<open>
  C10. Every profit an engine returns is at least \<open>0\<close>, also for matrices with negative
  entries. In the tables a cell is only replaced by a value that is equal or greater, so
  that the zero of the base row survives: every cell of the exact engine is at least \<open>0\<close>,
  and so is the cell of capacity \<open>0\<close> in every layer of the heuristic engines. The engines
  do return: the exact engine when the matrix has the \<open>n\<close> rows and columns and is in the
  exact range, the heuristic engines when its entries can be converted to doubles.
\<close>

theorem profit_never_negative:
  "(\<forall>S v. classical_dp_qkp w p c = Inr (S, v) \<longrightarrow> 0 \<le> v)
   \<and> (\<forall>S v. dp_heuristic_algo2 order w p c = Inr (S, v) \<longrightarrow> Finite 0 \<le> v)
   \<and> (\<forall>S v. dp_heuristic_algo3 order w p c = Inr (S, v) \<longrightarrow> Finite 0 \<le> v)
   \<and> (\<forall>dp tr. classical_fill w p c = Inr (dp, tr) \<longrightarrow>
         (\<forall>k\<le>length w. \<forall>r\<le>c. 0 \<le> dp ! k ! r)
         \<and> (\<forall>k<length w. \<forall>r\<le>c. dp ! k ! r \<le> dp ! Suc k ! r))
   \<and> (\<forall>dp sel. algo2_fill order w p c = Inr (dp, sel) \<longrightarrow>
         (\<forall>k\<le>length w. Finite 0 \<le> dp ! k ! 0)
         \<and> (\<forall>k<length w. \<forall>r\<le>c. dp ! k ! r \<le> dp ! Suc k ! r))
   \<and> (\<forall>dp inc. algo3_fill order w p c = Inr (dp, inc) \<longrightarrow> Finite 0 \<le> dp ! 0)
   \<and> (covers (length w) p \<and> exact_range (length w) p \<longrightarrow>
         (\<exists>S v. classical_dp_qkp w p c = Inr (S, v)))
   \<and> (covers (length w) p \<and> convertible (length w) p \<and> enumerates order \<longrightarrow>
         (\<exists>S v. dp_heuristic_algo2 order w p c = Inr (S, v))
         \<and> (\<exists>S v. dp_heuristic_algo3 order w p c = Inr (S, v)))"
proof (intro conjI allI impI)
  fix S v assume "classical_dp_qkp w p c = Inr (S, v)"
  from classical_sound[OF this] show "0 \<le> v" by simp
next
  fix S v assume "dp_heuristic_algo2 order w p c = Inr (S, v)"
  from algo2_sound[OF this] show "Finite 0 \<le> v" by simp
next
  fix S v assume "dp_heuristic_algo3 order w p c = Inr (S, v)"
  from algo3_sound[OF this] show "Finite 0 \<le> v" by simp
next
  fix dp tr k r assume "classical_fill w p c = Inr (dp, tr)" "k \<le> length w" "r \<le> c"
  from classical_table(1)[OF this] show "0 \<le> dp ! k ! r" by (simp add: spec_cell_nonneg)
next
  fix dp tr k r assume f: "classical_fill w p c = Inr (dp, tr)" and k: "k < length w" and r: "r \<le> c"
  from classical_table(1)[OF f _ r, of k] classical_table(1)[OF f _ r, of "Suc k"] k
  show "dp ! k ! r \<le> dp ! Suc k ! r" by (simp add: spec_cell_mono)
next
  fix dp sel k assume "algo2_fill order w p c = Inr (dp, sel)" "k \<le> length w"
  from algo2_table(1)[OF this, of 0] show "Finite 0 \<le> dp ! k ! 0" by (simp add: hcell_zero)
next
  fix dp sel k r assume f: "algo2_fill order w p c = Inr (dp, sel)" and k: "k < length w" and r: "r \<le> c"
  from algo2_table(1)[OF f _ r, of k] algo2_table(1)[OF f _ r, of "Suc k"] k
  show "dp ! k ! r \<le> dp ! Suc k ! r" by (simp add: hcell_mono)
next
  fix dp inc assume "algo3_fill order w p c = Inr (dp, inc)"
  from algo3_final_array(1)[OF this, of 0] show "Finite 0 \<le> dp ! 0" by (simp add: hcell_zero)
next
  assume "covers (length w) p \<and> exact_range (length w) p"
  then show "\<exists>S v. classical_dp_qkp w p c = Inr (S, v)"
    using classical_exact[of w p c] by blast
next
  assume "covers (length w) p \<and> convertible (length w) p \<and> enumerates order"
  then show "\<exists>S v. dp_heuristic_algo2 order w p c = Inr (S, v)"
    using algo2_total by blast
next
  assume "covers (length w) p \<and> convertible (length w) p \<and> enumerates order"
  then show "\<exists>S v. dp_heuristic_algo3 order w p c = Inr (S, v)"
    using algo3_total by blast
qed

theorem profit_never_negative_witness:
  "covers (length [1, 1 :: nat]) [[- 5, - 7], [- 7, - 4]]
   \<and> exact_range (length [1, 1 :: nat]) [[- 5, - 7], [- 7, - 4]]
   \<and> convertible (length [1, 1 :: nat]) [[- 5, - 7], [- 7, - 4]]
   \<and> enumerates ascending
   \<and> classical_dp_qkp [1, 1] [[- 5, - 7], [- 7, - 4]] 2 = Inr ({}, 0) \<and> (0 :: int) \<le> 0
   \<and> dp_heuristic_algo2 ascending [1, 1] [[- 5, - 7], [- 7, - 4]] 2 = Inr ({}, Finite 0)
   \<and> dp_heuristic_algo3 ascending [1, 1] [[- 5, - 7], [- 7, - 4]] 2 = Inr ({}, Finite 0)
   \<and> Finite 0 \<le> Finite 0
   \<and> (\<exists>S v. classical_dp_qkp [1, 1] [[- 5, - 7], [- 7, - 4]] 2 = Inr (S, v))
   \<and> (\<exists>S v. dp_heuristic_algo2 ascending [1, 1] [[- 5, - 7], [- 7, - 4]] 2 = Inr (S, v))
   \<and> (\<exists>S v. dp_heuristic_algo3 ascending [1, 1] [[- 5, - 7], [- 7, - 4]] 2 = Inr (S, v))"
proof -
  have cov: "covers (length [1, 1 :: nat]) [[- 5, - 7], [- 7, - 4]]" by code_simp
  have ex: "exact_range (length [1, 1 :: nat]) [[- 5, - 7], [- 7, - 4]]" by code_simp
  have conv: "convertible (length [1, 1 :: nat]) [[- 5, - 7], [- 7, - 4]]" by code_simp
  have r1: "classical_dp_qkp [1, 1] [[- 5, - 7], [- 7, - 4]] 2 = Inr ({}, 0)" by code_simp
  have r2: "dp_heuristic_algo2 ascending [1, 1] [[- 5, - 7], [- 7, - 4]] 2 = Inr ({}, Finite 0)"
    by code_simp
  have r3: "dp_heuristic_algo3 ascending [1, 1] [[- 5, - 7], [- 7, - 4]] 2 = Inr ({}, Finite 0)"
    by code_simp
  note t = profit_never_negative[of "[1, 1]" "[[- 5, - 7], [- 7, - 4]]" 2 ascending]
  from t r1 have a: "(0 :: int) \<le> 0" by blast
  from t r2 have b: "Finite 0 \<le> Finite 0" by blast
  from t cov ex have c: "\<exists>S v. classical_dp_qkp [1, 1] [[- 5, - 7], [- 7, - 4]] 2 = Inr (S, v)"
    by blast
  from t cov conv enumerates_ascending
  have d: "(\<exists>S v. dp_heuristic_algo2 ascending [1, 1] [[- 5, - 7], [- 7, - 4]] 2 = Inr (S, v))
         \<and> (\<exists>S v. dp_heuristic_algo3 ascending [1, 1] [[- 5, - 7], [- 7, - 4]] 2 = Inr (S, v))"
    by blast
  from cov ex conv enumerates_ascending r1 r2 r3 a b c d show ?thesis by blast
qed

text \<open>
  C7. Neither heuristic engine returns the sentinel \<open>-inf\<close> as its profit. The cell of
  capacity \<open>0\<close> starts at \<open>0\<close> and is never lowered, so that the final layer holds a cell
  other than \<open>-inf\<close> and the maximum is not \<open>-inf\<close>. Both engines do return when the
  matrix has the \<open>n\<close> rows and columns and its entries can be converted to doubles.
\<close>

theorem sentinel_never_returned:
  "(\<forall>S. dp_heuristic_algo2 order w p c \<noteq> Inr (S, NegInf))
   \<and> (\<forall>S. dp_heuristic_algo3 order w p c \<noteq> Inr (S, NegInf))
   \<and> (\<forall>dp sel. algo2_fill order w p c = Inr (dp, sel) \<longrightarrow> dp ! length w ! 0 \<noteq> NegInf)
   \<and> (\<forall>dp inc. algo3_fill order w p c = Inr (dp, inc) \<longrightarrow> dp ! 0 \<noteq> NegInf)
   \<and> (covers (length w) p \<and> convertible (length w) p \<and> enumerates order \<longrightarrow>
        (\<exists>S v. dp_heuristic_algo2 order w p c = Inr (S, v) \<and> v \<noteq> NegInf)
        \<and> (\<exists>S v. dp_heuristic_algo3 order w p c = Inr (S, v) \<and> v \<noteq> NegInf))"
proof (intro conjI allI impI)
  fix S show "dp_heuristic_algo2 order w p c \<noteq> Inr (S, NegInf)"
    using algo2_sound[of order w p c S NegInf] by auto
next
  fix S show "dp_heuristic_algo3 order w p c \<noteq> Inr (S, NegInf)"
    using algo3_sound[of order w p c S NegInf] by auto
next
  fix dp sel assume "algo2_fill order w p c = Inr (dp, sel)"
  from algo2_table(1)[OF this order_refl, of 0] hcell_zero[of order w p "length w"]
  show "dp ! length w ! 0 \<noteq> NegInf" by auto
next
  fix dp inc assume "algo3_fill order w p c = Inr (dp, inc)"
  from algo3_final_array(1)[OF this, of 0] hcell_zero[of order w p "length w"]
  show "dp ! 0 \<noteq> NegInf" by auto
next
  assume "covers (length w) p \<and> convertible (length w) p \<and> enumerates order"
  then obtain S v where r: "dp_heuristic_algo2 order w p c = Inr (S, v)"
    using algo2_total by blast
  from algo2_sound[OF r] have "v \<noteq> NegInf" by auto
  with r show "\<exists>S v. dp_heuristic_algo2 order w p c = Inr (S, v) \<and> v \<noteq> NegInf" by blast
next
  assume "covers (length w) p \<and> convertible (length w) p \<and> enumerates order"
  then obtain S v where r: "dp_heuristic_algo3 order w p c = Inr (S, v)"
    using algo3_total by blast
  from algo3_sound[OF r] have "v \<noteq> NegInf" by auto
  with r show "\<exists>S v. dp_heuristic_algo3 order w p c = Inr (S, v) \<and> v \<noteq> NegInf" by blast
qed

theorem sentinel_never_returned_witness:
  "covers (length [3, 4, 5 :: nat]) [[10, 2, 3], [2, 5, 4], [3, 4, 7]]
   \<and> convertible (length [3, 4, 5 :: nat]) [[10, 2, 3], [2, 5, 4], [3, 4, 7]]
   \<and> enumerates ascending
   \<and> (\<exists>S v. dp_heuristic_algo2 ascending [3, 4, 5] [[10, 2, 3], [2, 5, 4], [3, 4, 7]] 7 = Inr (S, v)
              \<and> v \<noteq> NegInf)
   \<and> (\<exists>S v. dp_heuristic_algo3 ascending [3, 4, 5] [[10, 2, 3], [2, 5, 4], [3, 4, 7]] 7 = Inr (S, v)
              \<and> v \<noteq> NegInf)"
proof -
  have cov: "covers (length [3, 4, 5 :: nat]) [[10, 2, 3], [2, 5, 4], [3, 4, 7]]" by code_simp
  have conv: "convertible (length [3, 4, 5 :: nat]) [[10, 2, 3], [2, 5, 4], [3, 4, 7]]"
    by code_simp
  from sentinel_never_returned[of ascending "[3, 4, 5]" "[[10, 2, 3], [2, 5, 4], [3, 4, 7]]" 7]
    cov conv enumerates_ascending
  show ?thesis by blast
qed

subsection \<open>Instances in which no item fits\<close>

lemma spec_cell_heavy:
  assumes "\<forall>i<k. c < w ! i" "r \<le> c"
  shows "spec_cell w p k r = (0, {})"
  using assms(1)
proof (induction k)
  case 0
  show ?case by simp
next
  case (Suc k)
  then have "spec_cell w p k r = (0, {})" "\<not> w ! k \<le> r" using assms(2) by auto
  then show ?case unfolding spec_cell_Suc by simp
qed

lemma hcell_heavy:
  assumes "\<forall>i<k. c < w ! i" "r \<le> c"
  shows "hcell order w p k r = (if r = 0 then Finite 0 else NegInf, {})"
  using assms(1)
proof (induction k)
  case 0
  show ?case by simp
next
  case (Suc k)
  then have "hcell order w p k r = (if r = 0 then Finite 0 else NegInf, {})" "r < w ! k"
    using assms(2) by auto
  then show ?case using hcell_too_heavy[of r w k order p] by simp
qed

lemma classical_cell_heavy:
  assumes "r < w ! k"
  shows "\<exists>s'. classical_cell w p (Suc k) r s = Inr s'"
proof -
  obtain dp tr where s: "s = (dp, tr)" by (cases s)
  show ?thesis
    unfolding s using assms
    by (simp add: classical_cell_def classical_include_def classical_exclude_def)
qed

lemma classical_heavy:
  assumes "\<forall>i<length w. c < w ! i"
  shows "classical_dp_qkp w p c = Inr ({}, 0)"
proof -
  have "\<exists>s. classical_fill w p c = Inr s"
    unfolding classical_fill_def
  proof (rule fill2_total[OF classical_init_agrees])
    fix k r u u'
    assume "Suc k \<le> length w" "r \<le> c" "agrees (spec_cell w p) (length w) c (Suc k) r u"
      "classical_cell w p (Suc k) r u = Inr u'"
    then show "agrees (spec_cell w p) (length w) c (Suc k) (Suc r) u'"
      using classical_cell_agrees by blast
  next
    fix k r u
    assume "Suc k \<le> length w" "r \<le> c"
    with assms have "r < w ! k" by (simp add: Suc_le_eq le_less_trans)
    then show "\<exists>u'. classical_cell w p (Suc k) r u = Inr u'" by (rule classical_cell_heavy)
  qed
  then obtain dp tr where "classical_fill w p c = Inr (dp, tr)" by (metis surj_pair)
  from classical_of_fill[OF this] obtain r where
    "r \<le> c" "classical_dp_qkp w p c =
       bindE (py_float (fst (spec_cell w p (length w) r)))
         (\<lambda>v. Inr (snd (spec_cell w p (length w) r), v))"
    by blast
  then show ?thesis using spec_cell_heavy[OF assms, of r p] by simp
qed

lemma heuristic_heavy:
  assumes "\<forall>i<n. c < w ! i" "r \<le> c" "\<forall>q\<le>c. fst (hcell order w p n q) \<le> fst (hcell order w p n r)"
  shows "hcell order w p n r = (Finite 0, {})"
proof -
  from assms(3) have "fst (hcell order w p n 0) \<le> fst (hcell order w p n r)" by simp
  then show ?thesis
    using hcell_heavy[OF assms(1), of 0 order p] hcell_heavy[OF assms(1,2), of order p]
    by (auto split: if_splits)
qed

lemma algo2_heavy:
  assumes "\<forall>i<length w. c < w ! i"
  shows "dp_heuristic_algo2 order w p c = Inr ({}, Finite 0)"
proof -
  have "\<exists>s. algo2_fill order w p c = Inr s"
    unfolding algo2_fill_def
  proof (rule fill2_total[OF algo2_init_agrees])
    fix k r u u'
    assume "Suc k \<le> length w" "r \<le> c" "agrees (hcell order w p) (length w) c (Suc k) r u"
      "algo2_cell order w p (Suc k) r u = Inr u'"
    then show "agrees (hcell order w p) (length w) c (Suc k) (Suc r) u'"
      using algo2_cell_agrees by blast
  next
    fix k r u
    assume "Suc k \<le> length w" "r \<le> c"
    with assms have "r < w ! k" by (simp add: Suc_le_eq le_less_trans)
    then show "\<exists>u'. algo2_cell order w p (Suc k) r u = Inr u'" by (rule algo2_cell_heavy)
  qed
  then obtain dp tr where "algo2_fill order w p c = Inr (dp, tr)" by (metis surj_pair)
  from algo2_of_fill[OF this] obtain r where
    r: "r \<le> c" "dp_heuristic_algo2 order w p c =
       Inr (snd (hcell order w p (length w) r), fst (hcell order w p (length w) r))"
       "\<forall>q\<le>c. fst (hcell order w p (length w) q) \<le> fst (hcell order w p (length w) r)"
    by blast
  from heuristic_heavy[OF assms r(1,3)] r(2) show ?thesis by simp
qed

lemma algo3_heavy:
  assumes "\<forall>i<length w. c < w ! i"
  shows "dp_heuristic_algo3 order w p c = Inr ({}, Finite 0)"
proof -
  have pass: "algo3_pass order w p c k s = Inr s" if "k < length w" for k s
  proof -
    from assms that have "c < w ! k" by simp
    then have "[w ! k..<c + 1] = []" by simp
    then show ?thesis by (simp add: algo3_pass_def del: upt_Suc)
  qed
  have "\<exists>s. algo3_fill order w p c = Inr s"
    unfolding algo3_fill_def
    by (rule foldE_upt_total[where I = "\<lambda>k s. True"]) (use pass in auto)
  then obtain dp inc where "algo3_fill order w p c = Inr (dp, inc)" by (metis surj_pair)
  from algo3_of_fill[OF this] obtain r where
    r: "r \<le> c" "dp_heuristic_algo3 order w p c =
       Inr (snd (hcell order w p (length w) r), fst (hcell order w p (length w) r))"
       "\<forall>q\<le>c. fst (hcell order w p (length w) q) \<le> fst (hcell order w p (length w) r)"
    by blast
  from heuristic_heavy[OF assms r(1,3)] r(2) show ?thesis by simp
qed

text \<open>
  C9. With the weights \<open>[5, 4, 6, 7]\<close> and capacity \<open>2\<close> every engine returns the empty set
  and profit \<open>0\<close>, whatever the profit matrix (and the enumeration order) is: no item fits,
  so that no entry of the matrix is read.
\<close>

theorem scenario_no_item_fits:
  "classical_dp_qkp [5, 4, 6, 7] p 2 = Inr ({}, 0)
   \<and> dp_heuristic_algo2 order [5, 4, 6, 7] p 2 = Inr ({}, Finite 0)
   \<and> dp_heuristic_algo3 order [5, 4, 6, 7] p 2 = Inr ({}, Finite 0)"
proof -
  have h: "\<forall>i<length [5, 4, 6, 7 :: nat]. 2 < [5, 4, 6, 7 :: nat] ! i"
    by (simp add: less_Suc_eq numeral_Bit0 numeral_Bit1 nth_Cons')
  from classical_heavy[OF h] algo2_heavy[OF h] algo3_heavy[OF h] show ?thesis by simp
qed

text \<open>
  C5 (amended). An instance without items, or with capacity \<open>0\<close> and only positive weights,
  makes every engine return the empty set and profit \<open>0\<close>, whatever the profit matrix is.
\<close>

theorem empty_instance:
  "w = [] \<or> (c = 0 \<and> (\<forall>x\<in>set w. 0 < x)) \<longrightarrow>
     classical_dp_qkp w p c = Inr ({}, 0)
     \<and> dp_heuristic_algo2 order w p c = Inr ({}, Finite 0)
     \<and> dp_heuristic_algo3 order w p c = Inr ({}, Finite 0)"
proof
  assume "w = [] \<or> (c = 0 \<and> (\<forall>x\<in>set w. 0 < x))"
  then have h: "\<forall>i<length w. c < w ! i" by auto
  from classical_heavy[OF h] algo2_heavy[OF h] algo3_heavy[OF h]
  show "classical_dp_qkp w p c = Inr ({}, 0)
     \<and> dp_heuristic_algo2 order w p c = Inr ({}, Finite 0)
     \<and> dp_heuristic_algo3 order w p c = Inr ({}, Finite 0)" by simp
qed

theorem empty_instance_witness:
  "classical_dp_qkp [] [] 3 = Inr ({}, 0)
   \<and> dp_heuristic_algo2 ascending [] [] 3 = Inr ({}, Finite 0)
   \<and> dp_heuristic_algo3 ascending [] [] 3 = Inr ({}, Finite 0)
   \<and> classical_dp_qkp [2, 3] [[4, 1], [1, 6]] 0 = Inr ({}, 0)
   \<and> dp_heuristic_algo2 ascending [2, 3] [[4, 1], [1, 6]] 0 = Inr ({}, Finite 0)
   \<and> dp_heuristic_algo3 ascending [2, 3] [[4, 1], [1, 6]] 0 = Inr ({}, Finite 0)"
proof -
  have pos: "\<forall>x\<in>set [2, 3 :: nat]. 0 < x" by simp
  from empty_instance[of "[]" 3 "[]" ascending]
    empty_instance[of "[2, 3]" 0 "[[4, 1], [1, 6]]" ascending] pos
  show ?thesis by simp
qed

text \<open>
  C5 as stated fails: with capacity \<open>0\<close> an item of weight \<open>0\<close> fits, and every engine
  selects it when its profit is positive.
\<close>

theorem zero_weight_item_selected:
  "classical_dp_qkp [0] [[5]] 0 = Inr ({0}, 5)
   \<and> dp_heuristic_algo2 ascending [0] [[5]] 0 = Inr ({0}, Finite 5)
   \<and> dp_heuristic_algo3 ascending [0] [[5]] 0 = Inr ({0}, Finite 5)"
  by code_simp

subsection \<open>The exceptions an engine can raise\<close>

















end
